theory Spec2Isabelle
  imports Main "HOL-Library.Signed_Division" "HOL-Library.List_Lexorder" "HOL-Library.Char_ord"
begin

section \<open>Integer helpers of the kernel\<close>

text \<open>
  The index type \<open>idx_t\<close> of the kernel is a signed 64-bit integer and \<open>int\<close> is the
  C++ \<open>int\<close>.  Signed overflow is undefined behaviour in C++, so the model computes in
  \<^typ>\<open>int\<close> and says nothing about runs that overflow.  The conversion of an \<open>idx_t\<close>
  value to \<open>int\<close> is no overflow: it keeps the low 32 bits, and the model writes it out
  where the source converts (\<open>idx_to_int\<close>).  Integer division in C++ truncates towards
  zero: it is \<open>sdiv\<close>, not \<open>div\<close>.

  The rounding macros of the common header:
  \<^verbatim>\<open>#define CEIL_DIV(numer, denom) (((numer) + (denom) - 1) / (denom))\<close>
  \<^verbatim>\<open>#define ROUND_UP(n, mult) (CEIL_DIV(n, mult) * (mult))\<close>
\<close>

definition CEIL_DIV :: "int \<Rightarrow> int \<Rightarrow> int" where
  "CEIL_DIV numer denom = (numer + denom - 1) sdiv denom"

definition ROUND_UP :: "int \<Rightarrow> int \<Rightarrow> int" where
  "ROUND_UP n mult = CEIL_DIV n mult * mult"

section \<open>The stencil context: wave-front and temporal-blocking geometry\<close>

text \<open>
  \<open>Indices\<close> and the members of \<open>ScanIndices\<close> hold one value per stencil dim (the step
  dim and the domain dims); bounding boxes, angles and extensions hold one value per
  domain dim.  The loop macro \<open>DOMAIN_VAR_LOOP(i, j)\<close> runs \<open>j\<close> over the domain dims
  \<open>0 .. nddims - 1\<close> with \<open>i\<close> the position of that dim among the stencil dims, which is
  \<open>step_posn + 1 + j\<close>; the macro and \<open>step_posn\<close> are declared outside the source
  files at hand, so \<open>step_posn\<close> is a field of the context.
\<close>

type_synonym Indices = "int list"

record BoundingBox =
  bb_begin :: "int list"
  bb_end :: "int list"

record ScanIndices =
  idx_begin :: Indices
  idx_end :: Indices

text \<open>
  The sizes of the settings object (\<open>_opts\<close>) hold one value per stencil dim; the
  entry of the step dim is a number of steps.  \<open>num_ranks\<close> (the number of ranks
  requested in each dim) and \<open>rank_indices\<close> (the coordinates of this rank) hold one
  value per domain dim.
\<close>

record KernelSettings =
  rank_sizes :: Indices
  region_sizes :: Indices
  block_sizes :: Indices
  mini_block_sizes :: Indices
  num_ranks :: "int list"
  rank_indices :: "int list"
  find_loc :: bool

text \<open>The MPI environment: the rank of this process and the number of active ranks.\<close>

record KernelEnv =
  my_rank :: nat
  env_num_ranks :: nat

text \<open>
  The members of the context that the geometry reads and writes.  \<open>num_packs\<close> is
  \<open>stPacks.size()\<close>.
\<close>

record StencilContext =
  nddims :: nat
  step_posn :: nat
  fold_pts :: "int list"
  max_halos :: "int list"
  num_packs :: nat
  rank_bb :: BoundingBox
  wf_steps :: int
  wf_angles :: "int list"
  left_wf_exts :: "int list"
  right_wf_exts :: "int list"
  tb_steps :: int
  num_tb_shifts :: int
  tb_angles :: "int list"
  tb_widths :: "int list"
  tb_tops :: "int list"
  mb_angles :: "int list"
  rank_domain_offsets :: "int list"
  overall_domain_sizes :: "int list"

definition stencil_posn :: "StencilContext \<Rightarrow> nat \<Rightarrow> nat" where
  "stencil_posn cx j = step_posn cx + 1 + j"

text \<open>\<open>setValsSame(0)\<close> keeps the dims of a tuple and sets every value to 0.\<close>

definition setValsSame :: "int \<Rightarrow> int list \<Rightarrow> int list" where
  "setValsSame v xs = map (\<lambda>_. v) xs"

subsection \<open>\<open>StencilContext::shift_region\<close>\<close>

text \<open>
  One iteration of the loop over the domain dims.  The state of the loop is the flag
  \<open>ok\<close> and the output \<open>idxs\<close>; \<open>bp\<close> is the bounding box of the pack, \<open>None\<close> when the
  pack pointer is null.
\<close>

definition shift_region_dim ::
  "StencilContext \<Rightarrow> Indices \<Rightarrow> Indices \<Rightarrow> int \<Rightarrow> BoundingBox option \<Rightarrow> nat \<Rightarrow>
     bool \<times> ScanIndices \<Rightarrow> bool \<times> ScanIndices" where
  "shift_region_dim cx base_start base_stop shift_num bp j st =
     (let ok = fst st; idxs = snd st;
          i = stencil_posn cx j;
          angle = wf_angles cx ! j;
          rstart = base_start ! i - angle * shift_num;
          rstop = base_stop ! i - angle * shift_num;
          rstart = (case bp of None \<Rightarrow> rstart | Some pbb \<Rightarrow> max rstart (bb_begin pbb ! j));
          rstop = (case bp of None \<Rightarrow> rstop | Some pbb \<Rightarrow> min rstop (bb_end pbb ! j));
          dbegin = bb_begin (rank_bb cx) ! j;
          dend = bb_end (rank_bb cx) ! j;
          rstart = (if rstart < dbegin \<and> left_wf_exts cx ! j \<noteq> 0
                    then max rstart (dbegin - left_wf_exts cx ! j + shift_num * angle)
                    else rstart);
          rstop = (if rstop > dend \<and> right_wf_exts cx ! j \<noteq> 0
                   then min rstop (dend + right_wf_exts cx ! j - shift_num * angle)
                   else rstop);
          idxs = idxs\<lparr>idx_begin := (idx_begin idxs)[i := rstart],
                      idx_end := (idx_end idxs)[i := rstop]\<rparr>;
          ok = (if rstop \<le> rstart then False else ok)
      in (ok, idxs))"

definition shift_region ::
  "StencilContext \<Rightarrow> Indices \<Rightarrow> Indices \<Rightarrow> int \<Rightarrow> BoundingBox option \<Rightarrow>
     ScanIndices \<Rightarrow> bool \<times> ScanIndices" where
  "shift_region cx base_start base_stop shift_num bp idxs =
     fold (shift_region_dim cx base_start base_stop shift_num bp) [0..<nddims cx] (True, idxs)"

text \<open>
  The bounds of the shifted region in domain dim \<open>j\<close> in closed form, as the
  specification words them: shift left by \<open>s * angle\<close>, clamp to the box of the pack,
  then keep the start (stop) inside the left (right) wave-front extension.
\<close>

definition region_start ::
  "StencilContext \<Rightarrow> Indices \<Rightarrow> int \<Rightarrow> BoundingBox option \<Rightarrow> nat \<Rightarrow> int" where
  "region_start cx base_start s bp j =
     (let shifted = base_start ! stencil_posn cx j - s * wf_angles cx ! j;
          clamped = (case bp of None \<Rightarrow> shifted | Some pbb \<Rightarrow> max shifted (bb_begin pbb ! j));
          lim = bb_begin (rank_bb cx) ! j - left_wf_exts cx ! j + s * wf_angles cx ! j
      in if clamped < bb_begin (rank_bb cx) ! j \<and> left_wf_exts cx ! j \<noteq> 0
         then max clamped lim else clamped)"

definition region_stop ::
  "StencilContext \<Rightarrow> Indices \<Rightarrow> int \<Rightarrow> BoundingBox option \<Rightarrow> nat \<Rightarrow> int" where
  "region_stop cx base_stop s bp j =
     (let shifted = base_stop ! stencil_posn cx j - s * wf_angles cx ! j;
          clamped = (case bp of None \<Rightarrow> shifted | Some pbb \<Rightarrow> min shifted (bb_end pbb ! j));
          lim = bb_end (rank_bb cx) ! j + right_wf_exts cx ! j - s * wf_angles cx ! j
      in if clamped > bb_end (rank_bb cx) ! j \<and> right_wf_exts cx ! j \<noteq> 0
         then min clamped lim else clamped)"

subsection \<open>\<open>StencilContext::update_tb_info\<close>\<close>

text \<open>
  The first loop over the domain dims sets the angles and bounds the number of temporal
  steps.  Its state is \<open>max_steps\<close> and the context.  The quotient
  \<open>(blksize - top_sz + tb_angle * 2) / sh_pts\<close> is a division by zero when there is no
  pack: the program faults there, and the model returns \<open>None\<close>.
\<close>

definition tb_angle_dim ::
  "KernelSettings \<Rightarrow> nat \<Rightarrow> (int \<times> StencilContext) option \<Rightarrow> (int \<times> StencilContext) option" where
  "tb_angle_dim opts j st =
     (case st of
        None \<Rightarrow> None
      | Some (max_steps, cx) \<Rightarrow>
         (let i = stencil_posn cx j;
              rnsize = region_sizes opts ! i;
              blksize = block_sizes opts ! i;
              mblksize = mini_block_sizes opts ! i;
              fpts = fold_pts cx ! j;
              angle = ROUND_UP (max_halos cx ! j) fpts;
              mb_angle = (if mblksize < blksize then angle else 0);
              cx = cx\<lparr>mb_angles := (mb_angles cx)[j := mb_angle]\<rparr>;
              tb_angle = (if blksize < rnsize then angle else 0);
              cx = cx\<lparr>tb_angles := (tb_angles cx)[j := tb_angle]\<rparr>
          in if tb_angle > 0 then
               (let top_sz = fpts;
                    sh_pts = tb_angle * 2 * int (num_packs cx)
                in if sh_pts = 0 then None
                   else Some (min max_steps ((blksize - top_sz + tb_angle * 2) sdiv sh_pts), cx))
             else Some (max_steps, cx)))"

text \<open>The second loop: the base and the top of the phase-0 trapezoid in dim \<open>j\<close>.\<close>

definition tb_width_dim :: "KernelSettings \<Rightarrow> nat \<Rightarrow> StencilContext \<Rightarrow> StencilContext" where
  "tb_width_dim opts j cx =
     (let i = stencil_posn cx j;
          blk_sz = block_sizes opts ! i;
          tb_angle = tb_angles cx ! j;
          cx = cx\<lparr>tb_widths := (tb_widths cx)[j := blk_sz]\<rparr>;
          cx = cx\<lparr>tb_tops := (tb_tops cx)[j := blk_sz]\<rparr>
      in if num_tb_shifts cx > 0 \<and> tb_angle > 0 then
           (let fpts = fold_pts cx ! j;
                min_top_sz = fpts;
                sa = num_tb_shifts cx * tb_angle;
                min_blk_width = min_top_sz + 2 * sa;
                blk_width = ROUND_UP (CEIL_DIV blk_sz 2 + sa) fpts;
                blk_width = max blk_width min_blk_width;
                top_sz = max (blk_width - 2 * sa) 0;
                cx = cx\<lparr>tb_widths := (tb_widths cx)[j := blk_width]\<rparr>
            in cx\<lparr>tb_tops := (tb_tops cx)[j := top_sz]\<rparr>)
         else cx)"

definition update_tb_info :: "KernelSettings \<Rightarrow> StencilContext \<Rightarrow> StencilContext option" where
  "update_tb_info opts cx0 =
     (let cx = cx0\<lparr>tb_steps := block_sizes opts ! step_posn cx0\<rparr>;
          cx = cx\<lparr>num_tb_shifts := 0,
                  tb_angles := setValsSame 0 (tb_angles cx),
                  tb_widths := setValsSame 0 (tb_widths cx),
                  tb_tops := setValsSame 0 (tb_tops cx),
                  mb_angles := setValsSame 0 (mb_angles cx)\<rparr>;
          st = (if tb_steps cx > 0 then
                  (case fold (tb_angle_dim opts) [0..<nddims cx]
                          (Some (min (tb_steps cx) (wf_steps cx), cx)) of
                     None \<Rightarrow> None
                   | Some (max_steps, cx) \<Rightarrow> Some (cx\<lparr>tb_steps := min (tb_steps cx) max_steps\<rparr>))
                else Some cx)
      in case st of
           None \<Rightarrow> None
         | Some cx \<Rightarrow>
            (let cx = (if tb_steps cx > 0 then
                         (let n = int (num_packs cx) * tb_steps cx
                          in cx\<lparr>num_tb_shifts := (if n > 0 then n - 1 else n)\<rparr>)
                       else cx)
             in Some (fold (tb_width_dim opts) [0..<nddims cx] cx)))"

subsection \<open>\<open>StencilContext::shift_mini_block\<close>\<close>

text \<open>
  The arguments of \<open>shift_mini_block\<close>.  The arguments \<open>nshapes\<close> and \<open>shape\<close> are
  only printed by the function and are left out.
\<close>

record ShiftArgs =
  mb_base_start :: Indices
  mb_base_stop :: Indices
  mb_shift_num :: int
  adj_block_base_start :: Indices
  adj_block_base_stop :: Indices
  block_base_start :: Indices
  block_base_stop :: Indices
  block_shift_num :: int
  nphases :: int
  phase :: int
  dims_to_bridge :: "int list"
  region_base_start :: Indices
  region_base_stop :: Indices
  region_shift_num :: int

text \<open>
  The stop of the phase-0 block before any shift: the block base when the block is
  alone in the region or there is one phase only, else the start plus the base width
  of the trapezoid, cut at the block base.
\<close>

definition phase0_blk_stop :: "StencilContext \<Rightarrow> ShiftArgs \<Rightarrow> nat \<Rightarrow> int" where
  "phase0_blk_stop cx a j =
     (let i = stencil_posn cx j;
          is_first_blk = block_base_start a ! i \<le> region_base_start a ! i;
          is_last_blk = block_base_stop a ! i \<ge> region_base_stop a ! i;
          is_one_blk = is_first_blk \<and> is_last_blk;
          blk_start = block_base_start a ! i;
          blk_stop = block_base_stop a ! i;
          tb_angle = tb_angles cx ! j
      in if nphases a > 1 \<and> \<not> is_one_blk then
           (let sa = (num_tb_shifts cx + 1) * tb_angle;
                blk_width = ROUND_UP (CEIL_DIV (blk_stop - blk_start) 2 + sa) (fold_pts cx ! j);
                blk_width = max blk_width (2 * sa + fold_pts cx ! j)
            in min (blk_start + blk_width) (block_base_stop a ! i))
         else blk_stop)"

text \<open>One iteration of the loop over the domain dims; its state is \<open>ok\<close> and \<open>idxs\<close>.\<close>

definition shift_mini_block_dim ::
  "StencilContext \<Rightarrow> ShiftArgs \<Rightarrow> nat \<Rightarrow> bool \<times> ScanIndices \<Rightarrow> bool \<times> ScanIndices" where
  "shift_mini_block_dim cx a j st =
     (let ok = fst st; idxs = snd st;
          i = stencil_posn cx j;
          is_first_blk = block_base_start a ! i \<le> region_base_start a ! i;
          is_last_blk = block_base_stop a ! i \<ge> region_base_stop a ! i;
          is_one_blk = is_first_blk \<and> is_last_blk;
          blk_start = block_base_start a ! i;
          tb_angle = tb_angles cx ! j;
          blk_stop = phase0_blk_stop cx a j;
          next_blk_start = block_base_stop a ! i;
          blk_start = blk_start + tb_angle * block_shift_num a;
          blk_start = (if is_first_blk then idx_begin idxs ! i else blk_start);
          blk_stop = blk_stop - tb_angle * block_shift_num a;
          blk_stop = (if (nphases a = 1 \<or> is_one_blk) \<and> is_last_blk
                      then idx_end idxs ! i else blk_stop);
          next_blk_start = next_blk_start + tb_angle * block_shift_num a;
          next_blk_start = (if is_last_blk then idx_end idxs ! i else next_blk_start);
          shape = (if phase a > 0 then
                     fold (\<lambda>k sh. if dims_to_bridge a ! k - 1 = int j
                                     then (max blk_stop blk_start, next_blk_start) else sh)
                       [0..<nat (phase a)] (blk_start, blk_stop)
                   else (blk_start, blk_stop));
          shape_start = fst shape;
          shape_stop = snd shape;
          ok = (if shape_stop \<le> shape_start then False else ok)
      in if ok then
           (let is_first_mb = mb_base_start a ! i \<le> adj_block_base_start a ! i;
                is_last_mb = mb_base_stop a ! i \<ge> adj_block_base_stop a ! i;
                is_one_mb = is_first_mb \<and> is_last_mb;
                mb_start = mb_base_start a ! i;
                mb_stop = mb_base_stop a ! i;
                mb_start = (if \<not> is_one_mb then mb_start - mb_angles cx ! j * mb_shift_num a
                            else mb_start);
                mb_stop = (if \<not> is_one_mb then mb_stop - mb_angles cx ! j * mb_shift_num a
                           else mb_stop);
                mb_start = (if is_first_mb then shape_start else mb_start);
                mb_stop = (if is_last_mb then shape_stop else mb_stop);
                mb_start = max mb_start (idx_begin idxs ! i);
                mb_stop = min mb_stop (idx_end idxs ! i);
                mb_start = max mb_start shape_start;
                mb_stop = min mb_stop shape_stop;
                idxs = idxs\<lparr>idx_begin := (idx_begin idxs)[i := mb_start],
                            idx_end := (idx_end idxs)[i := mb_stop]\<rparr>;
                ok = (if mb_stop \<le> mb_start then False else ok)
            in (ok, idxs))
         else (ok, idxs))"

definition shift_mini_block ::
  "StencilContext \<Rightarrow> ShiftArgs \<Rightarrow> BoundingBox option \<Rightarrow> ScanIndices \<Rightarrow> bool \<times> ScanIndices" where
  "shift_mini_block cx a bp idxs =
     fold (shift_mini_block_dim cx a) [0..<nddims cx]
       (shift_region cx (region_base_start a) (region_base_stop a) (region_shift_num a) bp idxs)"

text \<open>
  The widths of the phase-0 trapezoid as the specification words them: the base is
  \<open>round_up(ceil(block / 2) + shifts * angle, vlen)\<close>, at least
  \<open>vlen + 2 * shifts * angle\<close>; the top is the base less \<open>2 * shifts * angle\<close>, at
  least 0.
\<close>

definition trapezoid_base :: "int \<Rightarrow> int \<Rightarrow> int \<Rightarrow> int \<Rightarrow> int" where
  "trapezoid_base blk_sz shifts angle vlen =
     max (ROUND_UP (CEIL_DIV blk_sz 2 + shifts * angle) vlen) (vlen + 2 * (shifts * angle))"

definition trapezoid_top :: "int \<Rightarrow> int \<Rightarrow> int \<Rightarrow> int" where
  "trapezoid_top base shifts angle = max (base - 2 * (shifts * angle)) 0"

subsection \<open>\<open>StencilContext::setupRank\<close>\<close>

text \<open>
  The exceptions of the kernel, by the place that throws them.  In \<open>setupRank\<close>: the
  number of ranks requested is not the number of active ranks; the number of steps is
  not the same on all ranks; the distance to the own rank is not zero; two ranks are at
  the same coordinates; the domains of two in-line ranks do not line up.  In the
  element APIs of a var: no storage is allocated; an index is out of range.
\<close>

datatype yask_exception =
    RanksRequested int nat
  | NumStepsDiffer
  | OwnRankDistance int
  | SameCoordinates nat nat
  | Unaligned nat nat
  | NoStorage string
  | BadIndices string

text \<open>
  The tables \<open>coords\<close> and \<open>rsizes\<close> hold a row per rank and a column per domain dim.
  The row of this rank is written from the settings; the broadcasts fill the others
  with what the other ranks wrote into their own rows.  The tables are functions from
  the rank and the dim to the value.
\<close>

type_synonym rank_table = "nat \<Rightarrow> nat \<Rightarrow> int"

text \<open>Whether rank \<open>rn\<close> is in line with this rank in dim \<open>di\<close>: the loop with \<open>break\<close>.\<close>

definition is_inline :: "nat \<Rightarrow> int list \<Rightarrow> nat \<Rightarrow> bool" where
  "is_inline n rdeltas di = list_all (\<lambda>dj. \<not> (di \<noteq> dj \<and> rdeltas ! dj \<noteq> 0)) [0..<n]"

text \<open>
  One iteration of the loop over the domain dims for rank \<open>rn\<close>.  The sizes are
  accumulated before the other dims are compared, and the comparison throws at the
  first dim that differs.
\<close>

definition setup_rank_dim ::
  "nat \<Rightarrow> nat \<Rightarrow> nat \<Rightarrow> int list \<Rightarrow> rank_table \<Rightarrow> nat \<Rightarrow>
     yask_exception + StencilContext \<Rightarrow> yask_exception + StencilContext" where
  "setup_rank_dim n me rn rdeltas rsizes di st =
     (case st of
        Inl e \<Rightarrow> Inl e
      | Inr cx \<Rightarrow>
         if is_inline n rdeltas di then
           (let cx = (if rn \<noteq> me
                      then cx\<lparr>overall_domain_sizes := (overall_domain_sizes cx)
                                 [di := overall_domain_sizes cx ! di + rsizes rn di]\<rparr>
                      else cx);
                cx = (if rdeltas ! di < 0
                      then cx\<lparr>rank_domain_offsets := (rank_domain_offsets cx)
                                 [di := rank_domain_offsets cx ! di + rsizes rn di]\<rparr>
                      else cx)
            in if list_ex (\<lambda>dj. di \<noteq> dj \<and> rsizes me dj \<noteq> rsizes rn dj) [0..<n]
               then Inl (Unaligned rn me)
               else Inr cx)
         else Inr cx)"

text \<open>
  \<open>mandist\<close> is declared \<open>int\<close> and the differences of the coordinates are \<open>idx_t\<close>:
  \<open>mandist += abs(rdeltas[di])\<close> adds in \<open>idx_t\<close> and converts the sum to \<open>int\<close>, which
  keeps its low 32 bits.
\<close>

definition idx_to_int :: "int \<Rightarrow> int" where
  "idx_to_int x = (x + 2147483648) mod 4294967296 - 2147483648"

text \<open>
  One iteration of the loop over all ranks.  The part of the body that records the
  neighbors writes the MPI info object only and is left out.
\<close>

definition setup_rank_rn ::
  "nat \<Rightarrow> nat \<Rightarrow> int list \<Rightarrow> rank_table \<Rightarrow> rank_table \<Rightarrow> nat \<Rightarrow>
     yask_exception + StencilContext \<Rightarrow> yask_exception + StencilContext" where
  "setup_rank_rn n me ri coords rsizes rn st =
     (case st of
        Inl e \<Rightarrow> Inl e
      | Inr cx \<Rightarrow>
         (let rdeltas = map (\<lambda>di. coords rn di - ri ! di) [0..<n];
              mandist = fold (\<lambda>di m. idx_to_int (m + \<bar>rdeltas ! di\<bar>)) [0..<n] 0
          in if rn = me \<and> mandist \<noteq> 0 then Inl (OwnRankDistance mandist)
             else if rn \<noteq> me \<and> mandist = 0 then Inl (SameCoordinates me rn)
             else fold (setup_rank_dim n me rn rdeltas rsizes) [0..<n] (Inr cx)))"

text \<open>
  \<open>setupRank\<close> up to the end of the loop over the ranks; the two calls that follow it
  (\<open>update_grid_info\<close> and \<open>find_bounding_boxes\<close>) do not write the offsets or the
  overall sizes.  Parameters for what is outside the source files: \<open>unlayout\<close> is the
  tuple operation that turns a rank number into coordinates, \<open>steps_agree\<close> is the
  outcome of \<open>assertEqualityOverRanks\<close> on the number of steps, and \<open>recv_coords\<close> and
  \<open>recv_rsizes\<close> are the rows that the broadcasts deliver.
\<close>

definition my_indices :: "(int list \<Rightarrow> nat \<Rightarrow> int list) \<Rightarrow> KernelEnv \<Rightarrow> KernelSettings \<Rightarrow> int list" where
  "my_indices unlayout env opts =
     (if find_loc opts then unlayout (num_ranks opts) (my_rank env) else rank_indices opts)"

definition coords_table ::
  "(int list \<Rightarrow> nat \<Rightarrow> int list) \<Rightarrow> rank_table \<Rightarrow> KernelEnv \<Rightarrow> KernelSettings \<Rightarrow> rank_table" where
  "coords_table unlayout recv_coords env opts =
     recv_coords (my_rank env := (\<lambda>i. my_indices unlayout env opts ! i))"

definition rsizes_table ::
  "rank_table \<Rightarrow> KernelEnv \<Rightarrow> KernelSettings \<Rightarrow> StencilContext \<Rightarrow> rank_table" where
  "rsizes_table recv_rsizes env opts cx =
     recv_rsizes (my_rank env := (\<lambda>di. rank_sizes opts ! stencil_posn cx di))"

definition setupRank ::
  "(int list \<Rightarrow> nat \<Rightarrow> int list) \<Rightarrow> bool \<Rightarrow> rank_table \<Rightarrow> rank_table \<Rightarrow>
     KernelEnv \<Rightarrow> KernelSettings \<Rightarrow> StencilContext \<Rightarrow>
     yask_exception + KernelSettings \<times> StencilContext" where
  "setupRank unlayout steps_agree recv_coords recv_rsizes env opts0 cx0 =
     (let me = my_rank env;
          req_ranks = prod_list (num_ranks opts0)
      in if req_ranks \<noteq> int (env_num_ranks env)
         then Inl (RanksRequested req_ranks (env_num_ranks env))
         else if \<not> steps_agree then Inl NumStepsDiffer
         else
          (let opts = opts0\<lparr>rank_indices := my_indices unlayout env opts0\<rparr>;
               n = length (rank_indices opts);
               coords = coords_table unlayout recv_coords env opts0;
               rsizes = rsizes_table recv_rsizes env opts0 cx0;
               cx = cx0\<lparr>rank_domain_offsets := setValsSame 0 (rank_domain_offsets cx0),
                        overall_domain_sizes := setValsSame 0 (overall_domain_sizes cx0)\<rparr>;
               cx = fold (\<lambda>di c. c\<lparr>overall_domain_sizes :=
                                      (overall_domain_sizes c)[di := rsizes me di]\<rparr>)
                      [0..<n] cx
           in case fold (setup_rank_rn n me (rank_indices opts) coords rsizes)
                     [0..<env_num_ranks env] (Inr cx) of
                Inl e \<Rightarrow> Inl e
              | Inr cx \<Rightarrow> Inr (opts, cx)))"

text \<open>
  The sums the specification speaks of.  Rank \<open>rn\<close> is in line with rank \<open>me\<close> in dim
  \<open>d\<close> when their coordinates agree in every other dim.
\<close>

definition in_line :: "rank_table \<Rightarrow> nat \<Rightarrow> nat \<Rightarrow> nat \<Rightarrow> nat \<Rightarrow> bool" where
  "in_line coords n me rn d = list_all (\<lambda>dj. dj = d \<or> coords rn dj = coords me dj) [0..<n]"

definition line_size :: "rank_table \<Rightarrow> rank_table \<Rightarrow> nat \<Rightarrow> nat \<Rightarrow> nat \<Rightarrow> nat \<Rightarrow> int" where
  "line_size coords rsizes nranks n me d =
     sum_list (map (\<lambda>rn. if in_line coords n me rn d then rsizes rn d else 0) [0..<nranks])"

definition line_offset :: "rank_table \<Rightarrow> rank_table \<Rightarrow> nat \<Rightarrow> nat \<Rightarrow> nat \<Rightarrow> nat \<Rightarrow> int" where
  "line_offset coords rsizes nranks n me d =
     sum_list (map (\<lambda>rn. if in_line coords n me rn d \<and> coords rn d < coords me d
                          then rsizes rn d else 0) [0..<nranks])"

text \<open>
  Two ranks have the same coordinates when their rows of the table agree in every
  domain dim; the exceptions of the two layout checks are \<open>RanksRequested\<close> and
  \<open>SameCoordinates\<close>.
\<close>

definition same_coords :: "rank_table \<Rightarrow> nat \<Rightarrow> nat \<Rightarrow> nat \<Rightarrow> bool" where
  "same_coords coords n a b = list_all (\<lambda>di. coords a di = coords b di) [0..<n]"

fun layout_error :: "yask_exception \<Rightarrow> bool" where
  "layout_error (RanksRequested r n) = True"
| "layout_error (SameCoordinates a b) = True"
| "layout_error e = False"

text \<open>
  The Manhattan distance between the coordinates of two ranks, as a number: the sum of
  the absolute differences in all dims.
\<close>

definition manhattan :: "rank_table \<Rightarrow> nat \<Rightarrow> nat \<Rightarrow> nat \<Rightarrow> int" where
  "manhattan coords n a b = sum_list (map (\<lambda>di. \<bar>coords a di - coords b di\<bar>) [0..<n])"

text \<open>
  The differences between the coordinates of rank \<open>rn\<close> and those of this rank, which
  the loop over the domain dims collects in \<open>rdeltas\<close>.
\<close>

definition rdeltas_of :: "nat \<Rightarrow> int list \<Rightarrow> rank_table \<Rightarrow> nat \<Rightarrow> int list" where
  "rdeltas_of n ri co rn = map (\<lambda>di. co rn di - ri ! di) [0..<n]"

subsection \<open>An example rank\<close>

text \<open>
  A rank with two domain dims whose domain is \<open>[0, 64)\<close> in both, with a left
  wave-front extension of 8 in the first dim and a right extension of 8 in the second,
  wave-front angles of 4, and a pack whose box is \<open>[-8, 64) \<times> [0, 72)\<close>.
\<close>

definition ex_context :: StencilContext where
  "ex_context = \<lparr>nddims = 2, step_posn = 0, fold_pts = [4, 4], max_halos = [4, 4],
        num_packs = 1, rank_bb = \<lparr>bb_begin = [0, 0], bb_end = [64, 64]\<rparr>,
        wf_steps = 2, wf_angles = [4, 4], left_wf_exts = [8, 0], right_wf_exts = [0, 8],
        tb_steps = 0, num_tb_shifts = 0, tb_angles = [0, 0], tb_widths = [0, 0],
        tb_tops = [0, 0], mb_angles = [0, 0],
        rank_domain_offsets = [0, 0], overall_domain_sizes = [64, 64]\<rparr>"

definition ex_pack_bb :: BoundingBox where
  "ex_pack_bb = \<lparr>bb_begin = [-8, 0], bb_end = [64, 72]\<rparr>"

definition ex_idxs :: ScanIndices where
  "ex_idxs = \<lparr>idx_begin = [0, 0, 0], idx_end = [1, 0, 0]\<rparr>"

text \<open>
  A rank with one domain dim: fold length 4, largest halo 4, one pack, regions of 64
  points and 2 steps, blocks of 32 points and 2 steps, mini-blocks as large as the
  blocks.  The first of the two blocks of a region, unshifted, in phase 0 of 2.
\<close>

definition tb_settings :: KernelSettings where
  "tb_settings = \<lparr>rank_sizes = [2, 64], region_sizes = [2, 64], block_sizes = [2, 32],
        mini_block_sizes = [2, 32], num_ranks = [1], rank_indices = [0], find_loc = True\<rparr>"

definition tb_context :: StencilContext where
  "tb_context = \<lparr>nddims = 1, step_posn = 0, fold_pts = [4], max_halos = [4],
        num_packs = 1, rank_bb = \<lparr>bb_begin = [0], bb_end = [64]\<rparr>,
        wf_steps = 2, wf_angles = [4], left_wf_exts = [0], right_wf_exts = [0],
        tb_steps = 0, num_tb_shifts = 0, tb_angles = [0], tb_widths = [0],
        tb_tops = [0], mb_angles = [0],
        rank_domain_offsets = [0], overall_domain_sizes = [64]\<rparr>"

definition tb_first_block :: ShiftArgs where
  "tb_first_block = \<lparr>mb_base_start = [0, 0], mb_base_stop = [1, 32], mb_shift_num = 0,
        adj_block_base_start = [0, 0], adj_block_base_stop = [1, 32],
        block_base_start = [0, 0], block_base_stop = [1, 32], block_shift_num = 0,
        nphases = 2, phase = 0, dims_to_bridge = [0],
        region_base_start = [0, 0], region_base_stop = [1, 64], region_shift_num = 0\<rparr>"

text \<open>
  Four ranks in a 2 by 2 layout, rank \<open>r\<close> at the coordinates \<open>(r div 2, r mod 2)\<close>,
  with domains of 64 by 32, 64 by 48, 80 by 32 and 80 by 48 points; this rank is
  rank 3.  The same layout with rank 1 moved onto the coordinates of rank 3.
\<close>

definition grid_coords :: rank_table where
  "grid_coords rn di = (if di = 0 then int (rn div 2) else int (rn mod 2))"

definition grid_rsizes :: rank_table where
  "grid_rsizes rn di = (if di = 0 then (if rn div 2 = 0 then 64 else 80)
                        else (if rn mod 2 = 0 then 32 else 48))"

definition clash_coords :: rank_table where
  "clash_coords rn di = (if rn = 1 then 1 else grid_coords rn di)"

definition grid_env :: KernelEnv where
  "grid_env = \<lparr>my_rank = 3, env_num_ranks = 4\<rparr>"

definition grid_settings :: KernelSettings where
  "grid_settings = \<lparr>rank_sizes = [10, 80, 48], region_sizes = [1, 80, 48],
        block_sizes = [1, 80, 48], mini_block_sizes = [1, 80, 48],
        num_ranks = [2, 2], rank_indices = [1, 1], find_loc = False\<rparr>"

definition three_env :: KernelEnv where
  "three_env = \<lparr>my_rank = 2, env_num_ranks = 3\<rparr>"


section \<open>The compiler's vars: halos and step-dim allocation\<close>

subsection \<open>Tuples and ordered maps\<close>

text \<open>
  Modelled from the spec: the tuple class is not among the source files.  A tuple is an
  ordered mapping from dim names to integers that keeps the order of insertion:
  \<open>lookup\<close> finds the value of a name, \<open>add_dim_back\<close> appends a new name, writing
  through the pointer that \<open>lookup\<close> returns replaces the value in place, \<open>size\<close> is the
  number of dims and \<open>max\<close> the largest value.
\<close>

type_synonym IntTuple = "(string \<times> int) list"

definition lookup :: "IntTuple \<Rightarrow> string \<Rightarrow> int option" where
  "lookup t dname = map_of t dname"

definition add_dim_back :: "string \<Rightarrow> int \<Rightarrow> IntTuple \<Rightarrow> IntTuple" where
  "add_dim_back dname val t = t @ [(dname, val)]"

fun set_val :: "string \<Rightarrow> int \<Rightarrow> IntTuple \<Rightarrow> IntTuple" where
  "set_val dname val [] = []"
| "set_val dname val ((n, x) # t) =
     (if n = dname then (n, val) # t else (n, x) # set_val dname val t)"

fun tuple_max :: "IntTuple \<Rightarrow> int" where
  "tuple_max [] = 0"
| "tuple_max [(n, x)] = x"
| "tuple_max ((n, x) # t) = max x (tuple_max t)"

text \<open>
  A \<open>std::map\<close> is an association list with its keys in increasing order, which is the
  order a range-for loop visits.  \<open>cmap_put\<close> stores a value under a key, keeping the
  order; \<open>cmap_at\<close> is \<open>operator[]\<close> as a read: the value, or the default-constructed
  value that \<open>operator[]\<close> inserts for a new key.
\<close>

fun cmap_put :: "'k::linorder \<Rightarrow> 'v \<Rightarrow> ('k \<times> 'v) list \<Rightarrow> ('k \<times> 'v) list" where
  "cmap_put k v [] = [(k, v)]"
| "cmap_put k v ((k', v') # m) =
     (if k = k' then (k, v) # m
      else if k < k' then (k, v) # (k', v') # m
      else (k', v') # cmap_put k v m)"

definition cmap_at :: "('k \<times> 'v list) list \<Rightarrow> 'k \<Rightarrow> 'v list" where
  "cmap_at m k = (case map_of m k of None \<Rightarrow> [] | Some v \<Rightarrow> v)"

subsection \<open>The var\<close>

text \<open>
  \<open>halos\<close> is \<open>_halos\<close>: stage name, then side (\<open>True\<close> is left), then step offset, to
  the tuple of halo sizes per domain dim.  \<open>write_points\<close> is \<open>_write_points\<close>: stage
  name to the step offset written.  \<open>step_dim\<close> is what \<open>get_step_dim()\<close> returns: the
  name of the step dim of the var, if it has one.
\<close>

type_synonym step_halos = "(int \<times> IntTuple) list"
type_synonym side_halos = "(bool \<times> step_halos) list"
type_synonym stage_halos = "(string \<times> side_halos) list"

record Var =
  step_dim :: "string option"
  halos :: stage_halos
  write_points :: "(string \<times> int) list"
  l1_dist :: int
  step_alloc :: int

definition halo_tuple :: "stage_halos \<Rightarrow> string \<Rightarrow> bool \<Rightarrow> int \<Rightarrow> IntTuple" where
  "halo_tuple hs stage left step = cmap_at (cmap_at (cmap_at hs stage) left) step"

definition put_halo_tuple :: "string \<Rightarrow> bool \<Rightarrow> int \<Rightarrow> IntTuple \<Rightarrow> stage_halos \<Rightarrow> stage_halos" where
  "put_halo_tuple stage left step t hs =
     cmap_put stage
       (cmap_put left (cmap_put step t (cmap_at (cmap_at hs stage) left)) (cmap_at hs stage))
       hs"

subsection \<open>\<open>Var::update_halo(stage_name, offsets)\<close>\<close>

text \<open>
  One iteration of the loop over the dims of \<open>offsets\<close>.  The state is the halo map,
  \<open>changed\<close> and the count \<open>l1_dist\<close>.  The reference
  \<open>_halos[stage_name][left][step_val]\<close> is taken before the step dim is skipped, so the
  three map entries exist afterwards in every case.
\<close>

definition update_halo_dim ::
  "string option \<Rightarrow> string \<Rightarrow> int \<Rightarrow> string \<times> int \<Rightarrow>
     stage_halos \<times> bool \<times> int \<Rightarrow> stage_halos \<times> bool \<times> int" where
  "update_halo_dim sdim stage_name step_val dim st =
     (let hs = fst st; changed = fst (snd st); l1 = snd (snd st);
          dname = fst dim;
          val = snd dim;
          left = (val \<le> 0);
          t = halo_tuple hs stage_name left step_val;
          hs = put_halo_tuple stage_name left step_val t hs
      in if sdim = Some dname then (hs, changed, l1)
         else
          (let val = \<bar>val\<bar>;
               l1 = (if val > 0 then l1 + 1 else l1)
           in case lookup t dname of
                None \<Rightarrow>
                  (put_halo_tuple stage_name left step_val (add_dim_back dname val t) hs, True, l1)
              | Some p \<Rightarrow>
                  if val > p
                  then (put_halo_tuple stage_name left step_val (set_val dname val t) hs, True, l1)
                  else (hs, changed, l1)))"

text \<open>
  \<open>update_l1_dist\<close> is declared with the class, outside the source files; the comment
  of the sibling \<open>update_halo(other)\<close> says the L1 distance can only be increased.
\<close>

definition update_l1_dist :: "int \<Rightarrow> Var \<Rightarrow> Var" where
  "update_l1_dist l1 v = v\<lparr>l1_dist := max (l1_dist v) l1\<rparr>"

definition update_halo :: "string \<Rightarrow> IntTuple \<Rightarrow> Var \<Rightarrow> bool \<times> Var" where
  "update_halo stage_name offsets v =
     (let step_val = (case step_dim v of
                        None \<Rightarrow> 0
                      | Some sd \<Rightarrow> (case lookup offsets sd of None \<Rightarrow> 0 | Some p \<Rightarrow> p));
          st = fold (update_halo_dim (step_dim v) stage_name step_val) offsets
                 (halos v, False, 0)
      in (fst (snd st), update_l1_dist (snd (snd st)) (v\<lparr>halos := fst st\<rparr>)))"

subsection \<open>\<open>Var::update_write_points\<close>\<close>

text \<open>The first argument is the name of the step dim of the solution.\<close>

definition update_write_points :: "string \<Rightarrow> string \<Rightarrow> IntTuple \<Rightarrow> Var \<Rightarrow> Var" where
  "update_write_points soln_step_dim stage_name offsets v =
     (case lookup offsets soln_step_dim of
        None \<Rightarrow> v
      | Some sofs \<Rightarrow> v\<lparr>write_points := cmap_put stage_name sofs (write_points v)\<rparr>)"

subsection \<open>\<open>Var::get_step_dim_info\<close>\<close>

record StepDimInfo =
  step_dim_size :: int
  writeback_ofs :: "(string \<times> int) list"

definition unset :: int where
  "unset = -9999"

text \<open>
  The two inner loops over the sides and the step offsets of one stage: the state is
  \<open>is_written\<close>, \<open>first_ofs\<close> and \<open>last_ofs\<close>.
\<close>

definition scan_ofs ::
  "(string \<times> int) list \<Rightarrow> string \<Rightarrow> int \<times> IntTuple \<Rightarrow> bool \<times> int \<times> int \<Rightarrow> bool \<times> int \<times> int" where
  "scan_ofs wps stage_name j st =
     (let is_written = fst st; first_ofs = fst (snd st); last_ofs = snd (snd st);
          ofs = fst j;
          halo = snd j;
          is_written = (if map_of wps stage_name = Some ofs then True else is_written)
      in if length halo \<noteq> 0 then
           (if first_ofs = unset then (is_written, ofs, ofs)
            else (is_written, min first_ofs ofs, max last_ofs ofs))
         else (is_written, first_ofs, last_ofs))"

definition scan_stage :: "(string \<times> int) list \<Rightarrow> string \<Rightarrow> side_halos \<Rightarrow> bool \<times> int \<times> int" where
  "scan_stage wps stage_name h2 =
     fold (\<lambda>i st. fold (scan_ofs wps stage_name) (snd i) st) h2 (False, unset, unset)"

text \<open>The loop that finds the largest halos at the first and the last offset.\<close>

definition max_halo_side :: "int \<Rightarrow> int \<Rightarrow> bool \<times> step_halos \<Rightarrow> int \<times> int \<Rightarrow> int \<times> int" where
  "max_halo_side first_ofs last_ofs i st =
     (let first_max_halo = fst st; last_max_halo = snd st;
          h3 = snd i;
          first_max_halo =
            (case map_of h3 first_ofs of
               None \<Rightarrow> first_max_halo
             | Some t \<Rightarrow> if length t \<noteq> 0 then max first_max_halo (tuple_max t)
                         else first_max_halo);
          last_max_halo =
            (case map_of h3 last_ofs of
               None \<Rightarrow> last_max_halo
             | Some t \<Rightarrow> if length t \<noteq> 0 then max last_max_halo (tuple_max t)
                         else last_max_halo)
      in (first_max_halo, last_max_halo))"

text \<open>
  The body of the loop over the stages: the state is \<open>max_sz\<close> and \<open>sdi.writeback_ofs\<close>.
  \<open>_write_points.at(stage_name)\<close> cannot throw where it stands: \<open>is_written\<close> is only
  set when the stage has a write point, so \<open>write_ofs\<close> is the result of the lookup.
  The last \<open>else\<close> of the source is an \<open>assert\<close> of a string literal, which never
  fails: it does nothing.
\<close>

definition step_info_stage ::
  "(string \<times> int) list \<Rightarrow> string \<times> side_halos \<Rightarrow> int \<times> (string \<times> int) list \<Rightarrow>
     int \<times> (string \<times> int) list" where
  "step_info_stage wps hi st =
     (let max_sz = fst st; wb = snd st;
          stage_name = fst hi;
          h2 = snd hi;
          sc = scan_stage wps stage_name h2;
          is_written = fst sc; first_ofs = fst (snd sc); last_ofs = snd (snd sc)
      in if last_ofs \<noteq> unset \<and> first_ofs \<noteq> unset \<and> last_ofs \<noteq> first_ofs then
           (let sz = last_ofs - first_ofs + 1
            in if is_written then
                 (let mh = fold (max_halo_side first_ofs last_ofs) h2 (0, 0);
                      first_max_halo = fst mh; last_max_halo = snd mh
                  in if sz > 1 \<and> first_max_halo = 0 \<and> last_max_halo = 0 then
                       (let write_ofs = map_of wps stage_name;
                            sz = sz - 1;
                            wb = (if Some last_ofs = write_ofs
                                  then cmap_put stage_name first_ofs wb
                                  else if Some first_ofs = write_ofs
                                  then cmap_put stage_name last_ofs wb
                                  else wb)
                        in (max max_sz sz, wb))
                     else (max max_sz sz, wb))
               else (max max_sz sz, wb))
         else (max_sz, wb))"

text \<open>
  \<open>sdi0\<close> is the default-constructed \<open>StepDimInfo\<close>, whose declaration is outside the
  source files, and \<open>cmd_step_alloc\<close> is the \<open>_step_alloc\<close> of the compiler settings.
  The two overrides assign \<open>step_dim_size\<close> and the assignment after them assigns it
  again.
\<close>

definition get_step_dim_info :: "StepDimInfo \<Rightarrow> int \<Rightarrow> Var \<Rightarrow> StepDimInfo" where
  "get_step_dim_info sdi0 cmd_step_alloc v =
     (let sdi = sdi0
      in if step_dim v = None then sdi
         else if length (halos v) = 0 then sdi
         else
          (let st = fold (step_info_stage (write_points v)) (halos v) (1, writeback_ofs sdi);
               max_sz = fst st;
               sdi = sdi\<lparr>writeback_ofs := snd st\<rparr>;
               sdi = (if step_alloc v > 0 then sdi\<lparr>step_dim_size := step_alloc v\<rparr> else sdi);
               sdi = (if cmd_step_alloc > 0 then sdi\<lparr>step_dim_size := cmd_step_alloc\<rparr> else sdi)
           in sdi\<lparr>step_dim_size := max_sz\<rparr>))"

subsection \<open>Example vars\<close>

text \<open>
  A var \<open>A(t, x)\<close>, as the default constructor leaves it, and the default
  \<open>StepDimInfo\<close> with one step slot.
\<close>

definition new_var :: Var where
  "new_var = \<lparr>step_dim = Some ''t'', halos = [], write_points = [], l1_dist = 0, step_alloc = 0\<rparr>"

definition sdi_one :: StepDimInfo where
  "sdi_one = \<lparr>step_dim_size = 1, writeback_ofs = []\<rparr>"

text \<open>
  A stage that reads \<open>A(t-1, x)\<close> and \<open>A(t+1, x)\<close> and writes \<open>A(t, x)\<close>: the write is
  at the middle one of three step offsets, and every halo is zero.
\<close>

definition var_mid_write :: Var where
  "var_mid_write =
     update_write_points ''t'' ''s1'' [(''t'', 0), (''x'', 0)]
       (snd (update_halo ''s1'' [(''t'', 0), (''x'', 0)]
         (snd (update_halo ''s1'' [(''t'', 1), (''x'', 0)]
           (snd (update_halo ''s1'' [(''t'', -1), (''x'', 0)] new_var))))))"

text \<open>
  A stage that reads \<open>A(t, x-2)\<close>, \<open>A(t, x+1)\<close> and \<open>A(t-1, x)\<close> and writes
  \<open>A(t+1, x)\<close>.
\<close>

definition var_fwd :: Var where
  "var_fwd =
     update_write_points ''t'' ''s1'' [(''t'', 1), (''x'', 0)]
       (snd (update_halo ''s1'' [(''t'', 1), (''x'', 0)]
         (snd (update_halo ''s1'' [(''t'', -1), (''x'', 0)]
           (snd (update_halo ''s1'' [(''t'', 0), (''x'', 1)]
             (snd (update_halo ''s1'' [(''t'', 0), (''x'', -2)] new_var))))))))"

subsection \<open>The size of one stage\<close>

text \<open>
  The size that \<open>get_step_dim_info\<close> computes for one stage: the range of the step
  offsets that have a halo entry, less one when the writeback optimization applies;
  1 when the stage has no two such offsets.
\<close>

definition stage_size :: "(string \<times> int) list \<Rightarrow> string \<times> side_halos \<Rightarrow> int" where
  "stage_size wps hi =
     (let sc = scan_stage wps (fst hi) (snd hi);
          is_written = fst sc; first_ofs = fst (snd sc); last_ofs = snd (snd sc);
          mh = fold (max_halo_side first_ofs last_ofs) (snd hi) (0, 0)
      in if last_ofs \<noteq> unset \<and> first_ofs \<noteq> unset \<and> last_ofs \<noteq> first_ofs then
           (if is_written \<and> last_ofs - first_ofs + 1 > 1 \<and> fst mh = 0 \<and> snd mh = 0
            then last_ofs - first_ofs + 1 - 1
            else last_ofs - first_ofs + 1)
         else 1)"

subsection \<open>Reading the halo map\<close>

text \<open>
  The halo recorded for a stage, a side, a step offset and a dim, if any; and the
  value an entry has after an offset of absolute value \<open>a\<close> was recorded on it.
\<close>

definition halo_val :: "stage_halos \<Rightarrow> string \<Rightarrow> bool \<Rightarrow> int \<Rightarrow> string \<Rightarrow> int option" where
  "halo_val hs stage left step dname = lookup (halo_tuple hs stage left step) dname"

definition raised :: "int option \<Rightarrow> int \<Rightarrow> int" where
  "raised old a = (case old of None \<Rightarrow> a | Some p \<Rightarrow> max p a)"

text \<open>The step offset that \<open>update_halo\<close> files the offsets under.\<close>

definition step_val_of :: "Var \<Rightarrow> IntTuple \<Rightarrow> int" where
  "step_val_of v offsets =
     (case step_dim v of
        None \<Rightarrow> 0
      | Some sd \<Rightarrow> (case lookup offsets sd of None \<Rightarrow> 0 | Some p \<Rightarrow> p))"

section \<open>The kernel's vars: elements, slices and dirty flags\<close>

text \<open>
  Of a kernel var the model keeps the name, whether it is a scratch var, whether it
  uses the step dim and at which position of its indices, the first and the last
  allocated index in each dim, the number of step slots, the storage and the dirty
  flags.  \<open>elems\<close> is \<open>None\<close> when no storage is allocated (\<open>get_raw_storage_buffer()\<close>
  is null); else it gives the element at each point, whose step entry is a slot.  The
  element type \<open>real_t\<close> is a type parameter.
\<close>

record 'a YkVar =
  var_name :: string
  is_scratch :: bool
  step_used :: bool
  var_step_posn :: nat
  first_alloc :: Indices
  last_alloc :: Indices
  alloc_steps :: nat
  elems :: "(Indices \<Rightarrow> 'a) option"
  dirty_steps :: "bool list"

text \<open>
  Modelled from the spec: the accessors of the var are declared with its class, outside
  the source files.  A step index \<open>t\<close> maps to the storage slot \<open>t mod alloc_step\<close>; a
  var without a step dim has the one slot 0.  \<open>read_elem(point, slot)\<close> and
  \<open>write_elem(point, slot, v)\<close> address the element of the point in that slot;
  \<open>set_dirty(slot, bool)\<close> and \<open>is_dirty(slot)\<close> write and read the flag of a slot.
\<close>

definition wrap_step :: "'a YkVar \<Rightarrow> int \<Rightarrow> nat" where
  "wrap_step v t = (if step_used v then nat (t mod int (alloc_steps v)) else 0)"

definition get_alloc_step_index :: "'a YkVar \<Rightarrow> Indices \<Rightarrow> nat" where
  "get_alloc_step_index v indices = wrap_step v (indices ! var_step_posn v)"

definition elem_key :: "'a YkVar \<Rightarrow> Indices \<Rightarrow> nat \<Rightarrow> Indices" where
  "elem_key v pt asi = (if step_used v then pt[var_step_posn v := int asi] else pt)"


definition write_elem :: "'a YkVar \<Rightarrow> 'a \<Rightarrow> Indices \<Rightarrow> nat \<Rightarrow> (Indices \<Rightarrow> 'a) \<Rightarrow> Indices \<Rightarrow> 'a" where
  "write_elem v val pt asi st = st (elem_key v pt asi := val)"

definition add_to_elem :: "'a::plus YkVar \<Rightarrow> 'a \<Rightarrow> Indices \<Rightarrow> nat \<Rightarrow> (Indices \<Rightarrow> 'a) \<Rightarrow> Indices \<Rightarrow> 'a" where
  "add_to_elem v val pt asi st = st (elem_key v pt asi := st (elem_key v pt asi) + val)"

definition set_dirty_using_alloc_index :: "bool \<Rightarrow> nat \<Rightarrow> 'a YkVar \<Rightarrow> 'a YkVar" where
  "set_dirty_using_alloc_index dirty asi v = v\<lparr>dirty_steps := (dirty_steps v)[asi := dirty]\<rparr>"

definition is_dirty :: "'a YkVar \<Rightarrow> int \<Rightarrow> bool" where
  "is_dirty v t = dirty_steps v ! wrap_step v t"

definition set_dirty :: "bool \<Rightarrow> int \<Rightarrow> 'a YkVar \<Rightarrow> 'a YkVar" where
  "set_dirty dirty t v = set_dirty_using_alloc_index dirty (wrap_step v t) v"

subsection \<open>\<open>YkVarImpl::set_element\<close> and \<open>YkVarImpl::add_to_element\<close>\<close>

text \<open>
  \<open>check_indices\<close> is outside the source files and is a parameter: given the indices,
  \<open>strict_indices\<close> and \<open>check_step\<close>, it throws or says whether the indices are in
  range.  The conversion of the value from \<open>double\<close> to \<open>real_t\<close> is not modelled.
\<close>

type_synonym index_check = "Indices \<Rightarrow> bool \<Rightarrow> bool \<Rightarrow> yask_exception + bool"

definition set_element ::
  "index_check \<Rightarrow> 'a \<Rightarrow> Indices \<Rightarrow> bool \<Rightarrow> 'a YkVar \<Rightarrow> yask_exception + int \<times> 'a YkVar" where
  "set_element check_indices val indices strict_indices v =
     (let nup = 0
      in if elems v = None \<and> strict_indices then Inl (NoStorage ''set_element'')
         else case elems v of
                None \<Rightarrow> Inr (nup, v)
              | Some st \<Rightarrow>
                 (case check_indices indices strict_indices False of
                    Inl e \<Rightarrow> Inl e
                  | Inr ok \<Rightarrow>
                     if ok then
                       (let asi = get_alloc_step_index v indices;
                            v = v\<lparr>elems := Some (write_elem v val indices asi st)\<rparr>;
                            nup = nup + 1;
                            v = set_dirty_using_alloc_index True asi v
                        in Inr (nup, v))
                     else Inr (nup, v)))"

definition add_to_element ::
  "index_check \<Rightarrow> 'a::plus \<Rightarrow> Indices \<Rightarrow> bool \<Rightarrow> 'a YkVar \<Rightarrow> yask_exception + int \<times> 'a YkVar" where
  "add_to_element check_indices val indices strict_indices v =
     (let nup = 0
      in if elems v = None \<and> strict_indices then Inl (NoStorage ''add_to_element'')
         else case elems v of
                None \<Rightarrow> Inr (nup, v)
              | Some st \<Rightarrow>
                 (case check_indices indices strict_indices True of
                    Inl e \<Rightarrow> Inl e
                  | Inr ok \<Rightarrow>
                     if ok then
                       (let asi = get_alloc_step_index v indices;
                            v = v\<lparr>elems := Some (add_to_elem v val indices asi st)\<rparr>;
                            nup = nup + 1;
                            v = set_dirty_using_alloc_index True asi v
                        in Inr (nup, v))
                     else Inr (nup, v)))"

subsection \<open>Example vars\<close>

text \<open>
  A var \<open>u(t, x)\<close> with two step slots and the points \<open>0 .. 7\<close> in \<open>x\<close>, all elements 0
  and no slot dirty; the same var before its storage is allocated; and an index check
  that accepts everything.
\<close>

definition u_var :: "int YkVar" where
  "u_var = \<lparr>var_name = ''u'', is_scratch = False, step_used = True, var_step_posn = 0,
        first_alloc = [0, 0], last_alloc = [1, 7], alloc_steps = 2,
        elems = Some (\<lambda>pt. 0), dirty_steps = [False, False]\<rparr>"

definition u_unallocated :: "int YkVar" where
  "u_unallocated = u_var\<lparr>elems := None\<rparr>"

definition check_any :: index_check where
  "check_any indices strict check_step = Inr True"

subsection \<open>\<open>YkVarBase::get_elements_in_slice\<close> and \<open>YkVarBase::set_elements_in_slice\<close>\<close>







text \<open>
  \<open>set_dirty_in_slice\<close> marks the step indices of the slice dirty; for a var without a
  step dim it marks the one slot.
\<close>

definition set_dirty_in_slice :: "Indices \<Rightarrow> Indices \<Rightarrow> 'a YkVar \<Rightarrow> 'a YkVar" where
  "set_dirty_in_slice first_indices last_indices v =
     (if step_used v
      then fold (set_dirty True)
             [first_indices ! var_step_posn v .. last_indices ! var_step_posn v] v
      else set_dirty True 0 v)"





section \<open>Halo exchange\<close>

subsection \<open>The data of \<open>StencilContext::exchange_halos\<close>\<close>

text \<open>
  Of the MPI buffers of a var towards one neighbor the model keeps the rank of the
  neighbor, the sizes in bytes of the send and the receive buffer, and the first and
  the last point of the receive buffer.  \<open>mpiData\<close> maps the name of a var to the
  buffers of the neighbors that \<open>visitNeighbors\<close> visits, in the order of the visit;
  \<open>visitNeighbors\<close> itself is outside the source files.

  Of a bundle the model keeps, for each bundle of \<open>get_reqd_bundles()\<close>, the names of
  its input vars.  The vars are shared between the bundles by pointer: \<open>gridPtrs\<close> is
  the store of the vars by name.
\<close>

record MPIBufs =
  neighbor_rank :: nat
  send_bytes :: nat
  recv_bytes :: nat
  recv_begin_pt :: Indices
  recv_last_pt :: Indices

record Bundle =
  bundle_name :: string
  reqd_inputs :: "string list list"

record 'a HaloContext =
  enable_halo_exchange :: bool
  halo_num_ranks :: nat
  do_mpi_exterior :: bool
  do_mpi_interior :: bool
  stPacks :: "Bundle list list"
  gridPtrs :: "(string \<times> 'a YkVar) list"
  mpiData :: "(string \<times> MPIBufs list) list"

definition put_var :: "string \<Rightarrow> 'a YkVar \<Rightarrow> (string \<times> 'a YkVar) list \<Rightarrow> (string \<times> 'a YkVar) list" where
  "put_var gname v vars = map (\<lambda>(n, x). if n = gname then (n, v) else (n, x)) vars"

subsection \<open>The vars and steps to swap\<close>

text \<open>
  \<open>stepsToSwap\<close> maps the name of a var to a \<open>vector_set\<close> of step indices: a vector
  without repetitions, \<open>insert\<close> appending what is not yet in it.  \<open>gridsToSwap\<close> has the
  same keys and maps each name to the var of that name.
\<close>

definition vector_set_insert :: "int \<Rightarrow> int list \<Rightarrow> int list" where
  "vector_set_insert val xs = (if val \<in> set xs then xs else xs @ [val])"

text \<open>The allocated step indices that the loop checks, from \<open>start\<close> to \<open>stop - 1\<close>.\<close>

definition swap_step_range :: "'a YkVar \<Rightarrow> int list" where
  "swap_step_range gp =
     (let start = 0; stop = 1;
          start = (if step_used gp then min start (first_alloc gp ! var_step_posn gp) else start);
          stop = (if step_used gp then max stop (last_alloc gp ! var_step_posn gp + 1) else stop)
      in [start .. stop - 1])"

text \<open>
  The body of the loop over the input vars of a bundle; the state is \<open>stepsToSwap\<close> and
  \<open>max_steps\<close>.
\<close>

definition check_swap ::
  "'a HaloContext \<Rightarrow> string \<Rightarrow> (string \<times> int list) list \<times> nat \<Rightarrow> (string \<times> int list) list \<times> nat" where
  "check_swap cx gname st =
     (case map_of (gridPtrs cx) gname of
        None \<Rightarrow> st
      | Some gp \<Rightarrow>
         if is_scratch gp then st
         else if map_of (mpiData cx) gname = None then st
         else fold (\<lambda>t st.
                 if \<not> is_dirty gp t then st
                 else (let steps = cmap_put gname (vector_set_insert t (cmap_at (fst st) gname)) (fst st)
                       in (steps, max (snd st) (length (cmap_at steps gname)))))
                (swap_step_range gp) st)"

text \<open>The input vars in the order of the loops over packs, bundles and needed bundles.\<close>

definition input_grids :: "'a HaloContext \<Rightarrow> string list" where
  "input_grids cx = concat (map (\<lambda>bp. concat (map (\<lambda>sg. concat (reqd_inputs sg)) bp)) (stPacks cx))"

definition steps_to_swap :: "'a HaloContext \<Rightarrow> (string \<times> int list) list \<times> nat" where
  "steps_to_swap cx = fold (check_swap cx) (input_grids cx) ([], 0)"

subsection \<open>The exchange\<close>

datatype halo_steps = halo_irecv | halo_pack_isend | halo_unpack | halo_final

text \<open>
  What one phase does to a var for one neighbor and the step index \<open>si\<close>.  Requesting
  and sending read the var only.  Unpacking copies the received buffer into the var
  with \<open>set_elements_in_slice\<close> or \<open>set_vecs_in_slice\<close>, over the range of the receive
  buffer with its step index set to \<open>si\<close>: the copy writes elements and marks the steps
  of the range dirty.  The elements come from the neighbor: \<open>recv\<close> gives the storage
  after the copy, for the var, the rank of the neighbor and the step index.  The final
  phase waits for the send and marks the var clean at \<open>si\<close>.
\<close>

definition neighbor_step ::
  "(string \<Rightarrow> nat \<Rightarrow> int \<Rightarrow> (Indices \<Rightarrow> 'a) \<Rightarrow> Indices \<Rightarrow> 'a) \<Rightarrow> halo_steps \<Rightarrow> string \<Rightarrow> int \<Rightarrow>
     MPIBufs \<Rightarrow> 'a YkVar \<Rightarrow> 'a YkVar" where
  "neighbor_step recv halo_step gname si bufs gp =
     (case halo_step of
        halo_irecv \<Rightarrow> gp
      | halo_pack_isend \<Rightarrow> gp
      | halo_unpack \<Rightarrow>
          if recv_bytes bufs \<noteq> 0 then
            (let first = (if step_used gp then (recv_begin_pt bufs)[var_step_posn gp := si]
                          else recv_begin_pt bufs);
                 last = (if step_used gp then (recv_last_pt bufs)[var_step_posn gp := si]
                         else recv_last_pt bufs)
             in set_dirty_in_slice first last
                  (gp\<lparr>elems := map_option (recv gname (neighbor_rank bufs) si) (elems gp)\<rparr>))
          else gp
      | halo_final \<Rightarrow>
          if is_dirty gp si then set_dirty False si gp else gp)"

text \<open>The body of the loop over the vars to swap, for one phase and one step-vector index.\<close>

definition swap_grid ::
  "(string \<Rightarrow> nat \<Rightarrow> int \<Rightarrow> (Indices \<Rightarrow> 'a) \<Rightarrow> Indices \<Rightarrow> 'a) \<Rightarrow> (string \<times> MPIBufs list) list \<Rightarrow>
     nat \<Rightarrow> halo_steps \<Rightarrow> string \<times> int list \<Rightarrow>
     (string \<times> 'a YkVar) list \<Rightarrow> (string \<times> 'a YkVar) list" where
  "swap_grid recv mpi svi halo_step gtsi vars =
     (let gname = fst gtsi; steps = snd gtsi
      in if length steps \<le> svi then vars
         else (case map_of vars gname of
                 None \<Rightarrow> vars
               | Some gp \<Rightarrow>
                  put_var gname
                    (fold (neighbor_step recv halo_step gname (steps ! svi)) (cmap_at mpi gname) gp)
                    vars))"

definition steps_to_do :: "'a HaloContext \<Rightarrow> halo_steps list" where
  "steps_to_do cx =
     (if do_mpi_exterior cx then [halo_irecv, halo_pack_isend] else []) @
     (if do_mpi_interior cx then [halo_unpack, halo_final] else [])"

definition swap_index ::
  "(string \<Rightarrow> nat \<Rightarrow> int \<Rightarrow> (Indices \<Rightarrow> 'a) \<Rightarrow> Indices \<Rightarrow> 'a) \<Rightarrow> 'a HaloContext \<Rightarrow>
     (string \<times> int list) list \<Rightarrow> nat \<Rightarrow> (string \<times> 'a YkVar) list \<Rightarrow> (string \<times> 'a YkVar) list" where
  "swap_index recv cx swaps svi vars =
     fold (\<lambda>halo_step vars. fold (swap_grid recv (mpiData cx) svi halo_step) swaps vars)
       (steps_to_do cx) vars"

text \<open>
  \<open>exchange_halos\<close>.  The test-only variant polls the outstanding requests and changes
  no var.
\<close>

definition exchange_halos ::
  "(string \<Rightarrow> nat \<Rightarrow> int \<Rightarrow> (Indices \<Rightarrow> 'a) \<Rightarrow> Indices \<Rightarrow> 'a) \<Rightarrow> bool \<Rightarrow> 'a HaloContext \<Rightarrow> 'a HaloContext" where
  "exchange_halos recv test_only cx =
     (if \<not> enable_halo_exchange cx \<or> halo_num_ranks cx < 2 then cx
      else if test_only then cx
      else (let sw = steps_to_swap cx;
                swaps = fst sw; max_steps = snd sw
            in cx\<lparr>gridPtrs := fold (swap_index recv cx swaps) [0..<max_steps] (gridPtrs cx)\<rparr>))"

text \<open>
  Whether a non-test call selects the var \<open>gname\<close> at step index \<open>t\<close>, and the
  conditions under which the loop looks at a var at all.
\<close>

definition selected :: "'a HaloContext \<Rightarrow> string \<Rightarrow> int \<Rightarrow> bool" where
  "selected cx gname t = (t \<in> set (cmap_at (fst (steps_to_swap cx)) gname))"

definition swap_candidate :: "'a HaloContext \<Rightarrow> string \<Rightarrow> 'a YkVar \<Rightarrow> bool" where
  "swap_candidate cx gname gp =
     (gname \<in> set (input_grids cx) \<and> map_of (gridPtrs cx) gname = Some gp \<and>
      \<not> is_scratch gp \<and> map_of (mpiData cx) gname \<noteq> None)"

subsection \<open>An example rank\<close>

text \<open>
  A rank with one neighbor and one pack of one bundle that reads the var \<open>u\<close> and the
  scratch var \<open>tmp\<close> and writes the var \<open>w\<close>, which no bundle reads.  Slot 1 of \<open>u\<close>, and
  slot 0 of \<open>tmp\<close> and of \<open>w\<close>, are dirty; \<open>u\<close> and \<open>w\<close> have MPI buffers.
\<close>

definition nbr_bufs :: MPIBufs where
  "nbr_bufs = \<lparr>neighbor_rank = 1, send_bytes = 32, recv_bytes = 32,
        recv_begin_pt = [0, 8], recv_last_pt = [0, 8]\<rparr>"

definition u_halo :: "int YkVar" where
  "u_halo = u_var\<lparr>dirty_steps := [False, True]\<rparr>"

definition tmp_var :: "int YkVar" where
  "tmp_var = u_var\<lparr>var_name := ''tmp'', is_scratch := True, dirty_steps := [True, False]\<rparr>"

definition w_var :: "int YkVar" where
  "w_var = u_var\<lparr>var_name := ''w'', dirty_steps := [True, False]\<rparr>"

definition halo_context :: "int HaloContext" where
  "halo_context = \<lparr>enable_halo_exchange = True, halo_num_ranks = 2,
        do_mpi_exterior = True, do_mpi_interior = True,
        stPacks = [[\<lparr>bundle_name = ''b1'', reqd_inputs = [[''u'', ''tmp'']]\<rparr>]],
        gridPtrs = [(''u'', u_halo), (''tmp'', tmp_var), (''w'', w_var)],
        mpiData = [(''u'', [nbr_bufs]), (''w'', [nbr_bufs])]\<rparr>"

text \<open>The neighbor of the example sends back what the var already holds.\<close>

definition recv_same :: "string \<Rightarrow> nat \<Rightarrow> int \<Rightarrow> (Indices \<Rightarrow> int) \<Rightarrow> Indices \<Rightarrow> int" where
  "recv_same gname rank si st = st"

subsection \<open>Well-formed vars and buffers\<close>

text \<open>
  A var has one dirty flag per step slot (one flag when it has no step dim), and a
  var with a step dim has at least one slot.  The points of a buffer have an entry for
  the step dim of the var.  Two states of a var agree on what decides its slots.
\<close>

definition dirty_flags_ok :: "'a YkVar \<Rightarrow> bool" where
  "dirty_flags_ok v =
     (if step_used v then 0 < alloc_steps v \<and> length (dirty_steps v) = alloc_steps v
      else length (dirty_steps v) = 1)"

definition bufs_ok :: "'a YkVar \<Rightarrow> MPIBufs list \<Rightarrow> bool" where
  "bufs_ok v bs =
     list_all (\<lambda>b. \<not> step_used v \<or>
                   (var_step_posn v < length (recv_begin_pt b) \<and>
                    var_step_posn v < length (recv_last_pt b))) bs"

definition same_slots :: "'a YkVar \<Rightarrow> 'a YkVar \<Rightarrow> bool" where
  "same_slots v v' =
     (step_used v' = step_used v \<and> var_step_posn v' = var_step_posn v \<and>
      alloc_steps v' = alloc_steps v \<and> length (dirty_steps v') = length (dirty_steps v))"

text \<open>What the phases of one step-vector index, and of all of them, do to one var.\<close>

definition var_phase ::
  "(string \<Rightarrow> nat \<Rightarrow> int \<Rightarrow> (Indices \<Rightarrow> 'a) \<Rightarrow> Indices \<Rightarrow> 'a) \<Rightarrow> (string \<times> MPIBufs list) list \<Rightarrow>
     string \<Rightarrow> int list \<Rightarrow> nat \<Rightarrow> halo_steps \<Rightarrow> 'a YkVar \<Rightarrow> 'a YkVar" where
  "var_phase recv mpi gname steps svi halo_step gp =
     (if length steps \<le> svi then gp
      else fold (neighbor_step recv halo_step gname (steps ! svi)) (cmap_at mpi gname) gp)"

definition var_index ::
  "(string \<Rightarrow> nat \<Rightarrow> int \<Rightarrow> (Indices \<Rightarrow> 'a) \<Rightarrow> Indices \<Rightarrow> 'a) \<Rightarrow> 'a HaloContext \<Rightarrow>
     string \<Rightarrow> int list \<Rightarrow> nat \<Rightarrow> 'a YkVar \<Rightarrow> 'a YkVar" where
  "var_index recv cx gname steps svi gp =
     fold (var_phase recv (mpiData cx) gname steps svi) (steps_to_do cx) gp"

section \<open>Properties of \<open>shift_region\<close>\<close>

lemma shift_region_dim_eq:
  "shift_region_dim cx bs be s bp j (ok, idxs) =
     ((if region_stop cx be s bp j \<le> region_start cx bs s bp j then False else ok),
      idxs\<lparr>idx_begin := (idx_begin idxs)[stencil_posn cx j := region_start cx bs s bp j],
           idx_end := (idx_end idxs)[stencil_posn cx j := region_stop cx be s bp j]\<rparr>)"
  unfolding shift_region_dim_def region_start_def region_stop_def Let_def
  by (cases bp) (simp_all add: mult.commute)

lemma shift_region_fold:
  assumes "stencil_posn cx n \<le> length (idx_begin idxs)"
      and "stencil_posn cx n \<le> length (idx_end idxs)"
  shows "fold (shift_region_dim cx bs be s bp) [0..<n] (True, idxs) = (ok', idxs') \<Longrightarrow>
     (ok' \<longleftrightarrow> (\<forall>j<n. region_start cx bs s bp j < region_stop cx be s bp j)) \<and>
     length (idx_begin idxs') = length (idx_begin idxs) \<and>
     length (idx_end idxs') = length (idx_end idxs) \<and>
     (\<forall>j<n. idx_begin idxs' ! stencil_posn cx j = region_start cx bs s bp j \<and>
            idx_end idxs' ! stencil_posn cx j = region_stop cx be s bp j)"
  using assms
proof (induction n arbitrary: ok' idxs')
  case 0
  then show ?case by simp
next
  case (Suc n)
  obtain ok1 idxs1 where f1: "fold (shift_region_dim cx bs be s bp) [0..<n] (True, idxs) = (ok1, idxs1)"
    by (cases "fold (shift_region_dim cx bs be s bp) [0..<n] (True, idxs)") auto
  have len: "stencil_posn cx n \<le> length (idx_begin idxs)" "stencil_posn cx n \<le> length (idx_end idxs)"
    using Suc.prems by (simp_all add: stencil_posn_def)
  note ih = Suc.IH [OF f1 len]
  have step: "(ok', idxs') = shift_region_dim cx bs be s bp n (ok1, idxs1)"
    using Suc.prems(1) f1 by simp
  have lt: "stencil_posn cx n < length (idx_begin idxs1)" "stencil_posn cx n < length (idx_end idxs1)"
    using ih Suc.prems by (simp_all add: stencil_posn_def)
  have ne: "\<And>j. j < n \<Longrightarrow> stencil_posn cx n \<noteq> stencil_posn cx j"
    by (simp add: stencil_posn_def)
  have ok': "ok' = (if region_stop cx be s bp n \<le> region_start cx bs s bp n then False else ok1)"
    and idxs': "idxs' = idxs1\<lparr>idx_begin := (idx_begin idxs1)[stencil_posn cx n := region_start cx bs s bp n],
           idx_end := (idx_end idxs1)[stencil_posn cx n := region_stop cx be s bp n]\<rparr>"
    using step by (simp_all add: shift_region_dim_eq)
  have a: "ok' \<longleftrightarrow> (\<forall>j<Suc n. region_start cx bs s bp j < region_stop cx be s bp j)"
    using ok' ih by (auto simp: less_Suc_eq)
  have b: "idx_begin idxs' ! stencil_posn cx j = region_start cx bs s bp j" if "j < Suc n" for j
    using that idxs' ih lt ne by (cases "j = n") (simp_all add: less_Suc_eq)
  have c: "idx_end idxs' ! stencil_posn cx j = region_stop cx be s bp j" if "j < Suc n" for j
    using that idxs' ih lt ne by (cases "j = n") (simp_all add: less_Suc_eq)
  show ?case
    using a b c idxs' ih by simp
qed

text \<open>
  Claim C3.  For every shift count \<open>s\<close> and every domain dim \<open>j\<close>, \<open>shift_region\<close>
  writes into \<open>idxs\<close> the start \<open>base_start - s * angle\<close> and the stop
  \<open>base_stop - s * angle\<close>, clamped to the box of the pack when there is one, then the
  start raised inside the left wave-front extension to at least
  \<open>domain_begin - left_wf_ext + s * angle\<close> and the stop lowered inside the right
  extension to at most \<open>domain_end + right_wf_ext - s * angle\<close>; and it returns false
  exactly when \<open>stop \<le> start\<close> in some domain dim.  The output arrays must have an
  entry for every stencil dim.
\<close>

theorem shift_region_bounds:
  assumes "step_posn cx + 1 + nddims cx \<le> length (idx_begin idxs)"
      and "step_posn cx + 1 + nddims cx \<le> length (idx_end idxs)"
  shows "(\<forall>j<nddims cx.
            idx_begin (snd (shift_region cx base_start base_stop s bp idxs)) ! stencil_posn cx j
              = region_start cx base_start s bp j \<and>
            idx_end (snd (shift_region cx base_start base_stop s bp idxs)) ! stencil_posn cx j
              = region_stop cx base_stop s bp j) \<and>
         (\<not> fst (shift_region cx base_start base_stop s bp idxs) \<longleftrightarrow>
            (\<exists>j<nddims cx. region_stop cx base_stop s bp j \<le> region_start cx base_start s bp j))"
proof -
  obtain ok' idxs' where r: "shift_region cx base_start base_stop s bp idxs = (ok', idxs')"
    by (cases "shift_region cx base_start base_stop s bp idxs") auto
  have "(ok' \<longleftrightarrow> (\<forall>j<nddims cx. region_start cx base_start s bp j < region_stop cx base_stop s bp j)) \<and>
     length (idx_begin idxs') = length (idx_begin idxs) \<and>
     length (idx_end idxs') = length (idx_end idxs) \<and>
     (\<forall>j<nddims cx. idx_begin idxs' ! stencil_posn cx j = region_start cx base_start s bp j \<and>
            idx_end idxs' ! stencil_posn cx j = region_stop cx base_stop s bp j)"
    using r assms by (intro shift_region_fold) (simp_all add: shift_region_def stencil_posn_def)
  then show ?thesis
    using r by (auto simp: not_less)
qed

text \<open>
  The theorem at the example rank, with one shift: the region
  \<open>[-4, 32) \<times> [40, 76)\<close> becomes \<open>[-4, 28) \<times> [36, 68)\<close>.
\<close>

theorem shift_region_bounds_witness:
  "step_posn ex_context + 1 + nddims ex_context \<le> length (idx_begin ex_idxs) \<and>
   step_posn ex_context + 1 + nddims ex_context \<le> length (idx_end ex_idxs) \<and>
   idx_begin (snd (shift_region ex_context [0, -4, 40] [1, 32, 76] 1 (Some ex_pack_bb) ex_idxs))
       ! stencil_posn ex_context 0
     = region_start ex_context [0, -4, 40] 1 (Some ex_pack_bb) 0 \<and>
   idx_end (snd (shift_region ex_context [0, -4, 40] [1, 32, 76] 1 (Some ex_pack_bb) ex_idxs))
       ! stencil_posn ex_context 1
     = region_stop ex_context [1, 32, 76] 1 (Some ex_pack_bb) 1 \<and>
   (\<not> fst (shift_region ex_context [0, -4, 40] [1, 32, 76] 1 (Some ex_pack_bb) ex_idxs) \<longleftrightarrow>
      (\<exists>j<nddims ex_context. region_stop ex_context [1, 32, 76] 1 (Some ex_pack_bb) j
           \<le> region_start ex_context [0, -4, 40] 1 (Some ex_pack_bb) j)) \<and>
   shift_region ex_context [0, -4, 40] [1, 32, 76] 1 (Some ex_pack_bb) ex_idxs
     = (True, \<lparr>idx_begin = [0, -4, 36], idx_end = [1, 28, 68]\<rparr>)"
proof -
  have h1: "step_posn ex_context + 1 + nddims ex_context \<le> length (idx_begin ex_idxs)"
    by (simp add: ex_context_def ex_idxs_def)
  have h2: "step_posn ex_context + 1 + nddims ex_context \<le> length (idx_end ex_idxs)"
    by (simp add: ex_context_def ex_idxs_def)
  have n: "0 < nddims ex_context" "1 < nddims ex_context"
    by (simp_all add: ex_context_def)
  have run: "shift_region ex_context [0, -4, 40] [1, 32, 76] 1 (Some ex_pack_bb) ex_idxs
     = (True, \<lparr>idx_begin = [0, -4, 36], idx_end = [1, 28, 68]\<rparr>)"
    by code_simp
  from shift_region_bounds [OF h1 h2, of "[0, -4, 40]" "[1, 32, 76]" 1 "Some ex_pack_bb"] h1 h2 n run
  show ?thesis by blast
qed

section \<open>Properties of the temporal-blocking geometry\<close>

lemma tb_width_dim_eq:
  "tb_width_dim opts j cx =
     (if num_tb_shifts cx > 0 \<and> tb_angles cx ! j > 0 then
        cx\<lparr>tb_widths := (tb_widths cx)[j :=
               trapezoid_base (block_sizes opts ! stencil_posn cx j) (num_tb_shifts cx)
                 (tb_angles cx ! j) (fold_pts cx ! j)],
            tb_tops := (tb_tops cx)[j :=
               trapezoid_top
                 (trapezoid_base (block_sizes opts ! stencil_posn cx j) (num_tb_shifts cx)
                    (tb_angles cx ! j) (fold_pts cx ! j))
                 (num_tb_shifts cx) (tb_angles cx ! j)]\<rparr>
      else cx\<lparr>tb_widths := (tb_widths cx)[j := block_sizes opts ! stencil_posn cx j],
              tb_tops := (tb_tops cx)[j := block_sizes opts ! stencil_posn cx j]\<rparr>)"
  unfolding tb_width_dim_def trapezoid_base_def trapezoid_top_def Let_def stencil_posn_def
  by simp

lemma tb_width_dim_fields:
  "step_posn (tb_width_dim opts j cx) = step_posn cx"
  "fold_pts (tb_width_dim opts j cx) = fold_pts cx"
  "tb_angles (tb_width_dim opts j cx) = tb_angles cx"
  "num_tb_shifts (tb_width_dim opts j cx) = num_tb_shifts cx"
  "length (tb_widths (tb_width_dim opts j cx)) = length (tb_widths cx)"
  "length (tb_tops (tb_width_dim opts j cx)) = length (tb_tops cx)"
  by (simp_all add: tb_width_dim_eq)

lemma tb_width_fold_fields:
  "step_posn (fold (tb_width_dim opts) js cx) = step_posn cx \<and>
   fold_pts (fold (tb_width_dim opts) js cx) = fold_pts cx \<and>
   tb_angles (fold (tb_width_dim opts) js cx) = tb_angles cx \<and>
   num_tb_shifts (fold (tb_width_dim opts) js cx) = num_tb_shifts cx \<and>
   length (tb_widths (fold (tb_width_dim opts) js cx)) = length (tb_widths cx) \<and>
   length (tb_tops (fold (tb_width_dim opts) js cx)) = length (tb_tops cx)"
  by (induction js arbitrary: cx) (simp_all add: tb_width_dim_fields)

lemma tb_width_fold_nth:
  assumes "j < n" and "j < length (tb_widths cx)" and "j < length (tb_tops cx)"
      and "num_tb_shifts cx > 0" and "tb_angles cx ! j > 0"
  shows "tb_widths (fold (tb_width_dim opts) [0..<n] cx) ! j =
           trapezoid_base (block_sizes opts ! stencil_posn cx j) (num_tb_shifts cx)
             (tb_angles cx ! j) (fold_pts cx ! j) \<and>
         tb_tops (fold (tb_width_dim opts) [0..<n] cx) ! j =
           trapezoid_top
             (trapezoid_base (block_sizes opts ! stencil_posn cx j) (num_tb_shifts cx)
                (tb_angles cx ! j) (fold_pts cx ! j))
             (num_tb_shifts cx) (tb_angles cx ! j)"
  using assms
proof (induction n)
  case 0
  then show ?case by simp
next
  case (Suc n)
  define c where "c = fold (tb_width_dim opts) [0..<n] cx"
  have f: "step_posn c = step_posn cx" "fold_pts c = fold_pts cx" "tb_angles c = tb_angles cx"
    "num_tb_shifts c = num_tb_shifts cx" "length (tb_widths c) = length (tb_widths cx)"
    "length (tb_tops c) = length (tb_tops cx)"
    using tb_width_fold_fields [of opts "[0..<n]" cx] by (simp_all add: c_def)
  have sp: "stencil_posn c k = stencil_posn cx k" for k
    using f by (simp add: stencil_posn_def)
  have step: "fold (tb_width_dim opts) [0..<Suc n] cx = tb_width_dim opts n c"
    by (simp add: c_def)
  show ?case
  proof (cases "j = n")
    case True
    then show ?thesis
      using Suc.prems f sp unfolding step by (simp add: tb_width_dim_eq [of opts n c])
  next
    case False
    then have "j < n" using Suc.prems by simp
    then have ih: "tb_widths c ! j =
           trapezoid_base (block_sizes opts ! stencil_posn cx j) (num_tb_shifts cx)
             (tb_angles cx ! j) (fold_pts cx ! j)"
         "tb_tops c ! j =
           trapezoid_top
             (trapezoid_base (block_sizes opts ! stencil_posn cx j) (num_tb_shifts cx)
                (tb_angles cx ! j) (fold_pts cx ! j))
             (num_tb_shifts cx) (tb_angles cx ! j)"
      using Suc unfolding c_def by simp_all
    show ?thesis
      using ih False f unfolding step by (simp add: tb_width_dim_eq [of opts n c])
  qed
qed

lemma tb_angle_fold_None: "fold (tb_angle_dim opts) js None = None"
  by (induction js) (simp_all add: tb_angle_dim_def)

lemma tb_angle_dim_fields:
  assumes "tb_angle_dim opts j (Some (m, c)) = Some (m', c')"
  shows "nddims c' = nddims c \<and> step_posn c' = step_posn c \<and> fold_pts c' = fold_pts c \<and>
         num_packs c' = num_packs c \<and> tb_widths c' = tb_widths c \<and> tb_tops c' = tb_tops c \<and>
         tb_steps c' = tb_steps c"
  using assms unfolding tb_angle_dim_def Let_def
  by (auto split: if_splits)

lemma tb_angle_fold_fields:
  "fold (tb_angle_dim opts) js (Some (m, c)) = Some (m', c') \<Longrightarrow>
     nddims c' = nddims c \<and> step_posn c' = step_posn c \<and> fold_pts c' = fold_pts c \<and>
     num_packs c' = num_packs c \<and> tb_widths c' = tb_widths c \<and> tb_tops c' = tb_tops c \<and>
     tb_steps c' = tb_steps c"
proof (induction js arbitrary: m c)
  case Nil
  then show ?case by simp
next
  case (Cons j js)
  show ?case
  proof (cases "tb_angle_dim opts j (Some (m, c))")
    case None
    then show ?thesis using Cons.prems by (simp add: tb_angle_fold_None)
  next
    case (Some st)
    obtain m1 c1 where st: "st = (m1, c1)" by (cases st)
    have "fold (tb_angle_dim opts) js (Some (m1, c1)) = Some (m', c')"
      using Cons.prems Some st by simp
    from Cons.IH [OF this] tb_angle_dim_fields [of opts j m c m1 c1] Some st
    show ?thesis by simp
  qed
qed

lemma update_tb_info_second_loop:
  assumes "update_tb_info opts cx0 = Some cx"
  shows "\<exists>c. cx = fold (tb_width_dim opts) [0..<nddims cx0] c \<and>
             step_posn c = step_posn cx0 \<and> fold_pts c = fold_pts cx0 \<and>
             length (tb_widths c) = length (tb_widths cx0) \<and>
             length (tb_tops c) = length (tb_tops cx0)"
proof -
  define c1 where "c1 = cx0\<lparr>tb_steps := block_sizes opts ! step_posn cx0,
        num_tb_shifts := 0, tb_angles := setValsSame 0 (tb_angles cx0),
        tb_widths := setValsSame 0 (tb_widths cx0), tb_tops := setValsSame 0 (tb_tops cx0),
        mb_angles := setValsSame 0 (mb_angles cx0)\<rparr>"
  have c1: "nddims c1 = nddims cx0" "step_posn c1 = step_posn cx0" "fold_pts c1 = fold_pts cx0"
      "length (tb_widths c1) = length (tb_widths cx0)" "length (tb_tops c1) = length (tb_tops cx0)"
    by (simp_all add: c1_def setValsSame_def)
  define st where "st = (if tb_steps c1 > 0 then
                  (case fold (tb_angle_dim opts) [0..<nddims c1]
                          (Some (min (tb_steps c1) (wf_steps c1), c1)) of
                     None \<Rightarrow> None
                   | Some (max_steps, c) \<Rightarrow> Some (c\<lparr>tb_steps := min (tb_steps c) max_steps\<rparr>))
                else Some c1)"
  have upd: "update_tb_info opts cx0 =
      (case st of None \<Rightarrow> None
       | Some c \<Rightarrow> Some (fold (tb_width_dim opts) [0..<nddims c]
           (if tb_steps c > 0 then
              c\<lparr>num_tb_shifts := (if int (num_packs c) * tb_steps c > 0
                   then int (num_packs c) * tb_steps c - 1 else int (num_packs c) * tb_steps c)\<rparr>
            else c)))"
    unfolding update_tb_info_def st_def c1_def Let_def
    by (simp split: option.splits if_splits prod.splits)
  obtain c2 where c2: "st = Some c2"
    using assms upd by (cases st) simp_all
  have f2: "nddims c2 = nddims cx0 \<and> step_posn c2 = step_posn cx0 \<and> fold_pts c2 = fold_pts cx0 \<and>
      length (tb_widths c2) = length (tb_widths cx0) \<and> length (tb_tops c2) = length (tb_tops cx0)"
  proof (cases "tb_steps c1 > 0")
    case False
    then show ?thesis using c2 c1 by (simp add: st_def)
  next
    case True
    then obtain m' c' where
      f: "fold (tb_angle_dim opts) [0..<nddims c1] (Some (min (tb_steps c1) (wf_steps c1), c1))
            = Some (m', c')"
      and e: "c2 = c'\<lparr>tb_steps := min (tb_steps c') m'\<rparr>"
      using c2 by (auto simp: st_def split: option.splits prod.splits)
    from tb_angle_fold_fields [OF f] e c1 show ?thesis by simp
  qed
  show ?thesis
    using assms upd c2 f2
    by (intro exI [of _ "if tb_steps c2 > 0 then
              c2\<lparr>num_tb_shifts := (if int (num_packs c2) * tb_steps c2 > 0
                   then int (num_packs c2) * tb_steps c2 - 1 else int (num_packs c2) * tb_steps c2)\<rparr>
            else c2"]) auto
qed

text \<open>
  The first half of claim C4, on \<open>update_tb_info\<close>: where temporal blocking is active
  in dim \<open>j\<close>, the base of the phase-0 trapezoid is \<open>trapezoid_base\<close> of the block size
  with \<open>num_tb_shifts\<close> shifts, and the top is \<open>trapezoid_top\<close> of that base.
\<close>

lemma update_tb_info_trapezoid:
  assumes "update_tb_info opts cx0 = Some cx"
      and "j < nddims cx0" and "j < length (tb_widths cx0)" and "j < length (tb_tops cx0)"
      and "num_tb_shifts cx > 0" and "tb_angles cx ! j > 0"
  shows "tb_widths cx ! j =
           trapezoid_base (block_sizes opts ! stencil_posn cx0 j) (num_tb_shifts cx)
             (tb_angles cx ! j) (fold_pts cx0 ! j) \<and>
         tb_tops cx ! j = trapezoid_top (tb_widths cx ! j) (num_tb_shifts cx) (tb_angles cx ! j)"
proof -
  obtain c where c: "cx = fold (tb_width_dim opts) [0..<nddims cx0] c"
      "step_posn c = step_posn cx0" "fold_pts c = fold_pts cx0"
      "length (tb_widths c) = length (tb_widths cx0)" "length (tb_tops c) = length (tb_tops cx0)"
    using update_tb_info_second_loop [OF assms(1)] by blast
  have same: "tb_angles cx = tb_angles c" "num_tb_shifts cx = num_tb_shifts c"
    using tb_width_fold_fields [of opts "[0..<nddims cx0]" c] c(1) by simp_all
  have sp: "stencil_posn c j = stencil_posn cx0 j"
    using c(2) by (simp add: stencil_posn_def)
  from tb_width_fold_nth [of j "nddims cx0" c opts] assms c same sp
  show ?thesis by simp
qed

text \<open>
  Claim C4.  \<open>update_tb_info\<close> computes the base width of the phase-0 trapezoid with
  \<open>num_tb_shifts\<close> shifts, but \<open>shift_mini_block\<close> computes the phase-0 block bounds with
  \<open>num_tb_shifts + 1\<close> shifts.  On the one-dim example (blocks of 32 points, angle 4,
  fold length 4, one shift) the trapezoid base of \<open>update_tb_info\<close> is 20 and its top
  is 12, while the unshifted phase-0 span that \<open>shift_mini_block\<close> returns for the first
  block is \<open>[0, 24)\<close>, the width that two shifts give.
\<close>

theorem shift_mini_block_width_differs:
  "update_tb_info tb_settings tb_context =
     Some (tb_context\<lparr>tb_steps := 2, num_tb_shifts := 1, tb_angles := [4],
             tb_widths := [20], tb_tops := [12]\<rparr>) \<and>
   trapezoid_base 32 1 4 4 = 20 \<and>
   trapezoid_base 32 2 4 4 = 24 \<and>
   shift_mini_block
     (tb_context\<lparr>tb_steps := 2, num_tb_shifts := 1, tb_angles := [4],
             tb_widths := [20], tb_tops := [12]\<rparr>)
     tb_first_block None \<lparr>idx_begin = [0, 0], idx_end = [1, 0]\<rparr>
     = (True, \<lparr>idx_begin = [0, 0], idx_end = [1, 24]\<rparr>)"
  by code_simp

section \<open>Properties of \<open>setupRank\<close>\<close>

lemma setup_rank_dim_Inl: "fold (setup_rank_dim n me rn rd rs) ds (Inl e) = Inl e"
  by (induction ds) (simp_all add: setup_rank_dim_def)

lemma setup_rank_rn_Inl: "fold (setup_rank_rn n me ri co rs) rns (Inl e) = Inl e"
  by (induction rns) (simp_all add: setup_rank_rn_def)

text \<open>What one iteration over a dim does when it does not throw.\<close>

lemma setup_rank_dim_Inr:
  assumes "setup_rank_dim n me rn rd rs di (Inr cx) = Inr cx'"
  shows "overall_domain_sizes cx' =
           (if is_inline n rd di \<and> rn \<noteq> me
            then (overall_domain_sizes cx)[di := overall_domain_sizes cx ! di + rs rn di]
            else overall_domain_sizes cx)"
    and "rank_domain_offsets cx' =
           (if is_inline n rd di \<and> rd ! di < 0
            then (rank_domain_offsets cx)[di := rank_domain_offsets cx ! di + rs rn di]
            else rank_domain_offsets cx)"
  using assms unfolding setup_rank_dim_def Let_def
  by (auto split: if_splits)

lemma setup_rank_dim_fold:
  "fold (setup_rank_dim n me rn rd rs) [0..<k] (Inr cx) = Inr cx' \<Longrightarrow>
     length (overall_domain_sizes cx') = length (overall_domain_sizes cx) \<and>
     length (rank_domain_offsets cx') = length (rank_domain_offsets cx) \<and>
     (\<forall>d < length (overall_domain_sizes cx).
        overall_domain_sizes cx' ! d = overall_domain_sizes cx ! d +
          (if d < k \<and> is_inline n rd d \<and> rn \<noteq> me then rs rn d else 0)) \<and>
     (\<forall>d < length (rank_domain_offsets cx).
        rank_domain_offsets cx' ! d = rank_domain_offsets cx ! d +
          (if d < k \<and> is_inline n rd d \<and> rd ! d < 0 then rs rn d else 0))"
proof (induction k arbitrary: cx')
  case 0
  then show ?case by simp
next
  case (Suc k)
  define st where "st = fold (setup_rank_dim n me rn rd rs) [0..<k] (Inr cx)"
  have step: "setup_rank_dim n me rn rd rs k st = Inr cx'"
    using Suc.prems by (simp add: st_def)
  then obtain c1 where c1: "st = Inr c1"
    by (cases st) (simp_all add: setup_rank_dim_def)
  note ih = Suc.IH [OF c1 [unfolded st_def]]
  note s = setup_rank_dim_Inr [OF step [unfolded c1]]
  have len: "length (overall_domain_sizes cx') = length (overall_domain_sizes cx)"
      "length (rank_domain_offsets cx') = length (rank_domain_offsets cx)"
    using ih s by simp_all
  have ov: "overall_domain_sizes cx' ! d = overall_domain_sizes cx ! d +
          (if d < Suc k \<and> is_inline n rd d \<and> rn \<noteq> me then rs rn d else 0)"
    if "d < length (overall_domain_sizes cx)" for d
  proof (cases "d = k")
    case True
    then show ?thesis using that ih s(1) by simp
  next
    case False
    then show ?thesis using that ih s(1) by (auto simp: less_Suc_eq)
  qed
  have off: "rank_domain_offsets cx' ! d = rank_domain_offsets cx ! d +
          (if d < Suc k \<and> is_inline n rd d \<and> rd ! d < 0 then rs rn d else 0)"
    if "d < length (rank_domain_offsets cx)" for d
  proof (cases "d = k")
    case True
    then show ?thesis using that ih s(2) by simp
  next
    case False
    then show ?thesis using that ih s(2) by (auto simp: less_Suc_eq)
  qed
  show ?case
    using len ov off by simp
qed

lemma idx_to_int_id: "0 \<le> x \<Longrightarrow> x < 2147483648 \<Longrightarrow> idx_to_int x = x"
  by (simp add: idx_to_int_def)

text \<open>Below \<open>2 ^ 31\<close> the conversions to \<open>int\<close> lose nothing.\<close>

lemma mandist_exact:
  "sum_list (map (\<lambda>di. \<bar>rd ! di\<bar>) [0..<k]) < 2147483648 \<Longrightarrow>
   fold (\<lambda>di m. idx_to_int (m + \<bar>rd ! di\<bar>)) [0..<k] 0 =
     sum_list (map (\<lambda>di. \<bar>rd ! di :: int\<bar>) [0..<k])"
proof (induction k)
  case 0
  then show ?case by simp
next
  case (Suc k)
  define s where "s = sum_list (map (\<lambda>di. \<bar>rd ! di\<bar>) [0..<k])"
  have nn: "0 \<le> s"
    unfolding s_def by (rule sum_list_nonneg) auto
  have b: "s + \<bar>rd ! k\<bar> < 2147483648"
    using Suc.prems by (simp add: s_def)
  then have "s < 2147483648" by simp
  then have ih: "fold (\<lambda>di m. idx_to_int (m + \<bar>rd ! di\<bar>)) [0..<k] 0 = s"
    using Suc.IH by (simp add: s_def)
  have "idx_to_int (s + \<bar>rd ! k\<bar>) = s + \<bar>rd ! k\<bar>"
    using nn b by (intro idx_to_int_id) simp_all
  then show ?case
    using ih by (simp add: s_def)
qed

lemma manhattan_zero: "manhattan co n a b = 0 \<longleftrightarrow> same_coords co n a b"
proof -
  have "manhattan co n a b = 0 \<longleftrightarrow> (\<forall>x \<in> set (map (\<lambda>di. \<bar>co a di - co b di\<bar>) [0..<n]). x = 0)"
    unfolding manhattan_def by (rule sum_list_nonneg_eq_0_iff) auto
  then show ?thesis
    by (auto simp: same_coords_def list_all_iff)
qed

lemma mandist_manhattan:
  assumes "\<forall>dj<n. ri ! dj = co me dj" and "manhattan co n rn me < 2147483648"
  shows "fold (\<lambda>di m. idx_to_int (m + \<bar>map (\<lambda>di. co rn di - ri ! di) [0..<n] ! di\<bar>)) [0..<n] 0
           = manhattan co n rn me"
proof -
  define rd where "rd = map (\<lambda>di. co rn di - ri ! di) [0..<n]"
  have "map (\<lambda>di. \<bar>rd ! di\<bar>) [0..<n] = map (\<lambda>di. \<bar>co rn di - co me di\<bar>) [0..<n]"
    using assms(1) by (intro map_cong) (simp_all add: rd_def)
  then have m: "sum_list (map (\<lambda>di. \<bar>rd ! di\<bar>) [0..<n]) = manhattan co n rn me"
    unfolding manhattan_def by (rule arg_cong)
  then have "sum_list (map (\<lambda>di. \<bar>rd ! di\<bar>) [0..<n]) < 2147483648"
    using assms(2) by simp
  from mandist_exact [OF this] m show ?thesis
    by (simp add: rd_def)
qed

lemma setup_rank_rn_Inr:
  assumes "setup_rank_rn n me ri co rs rn (Inr cx) = Inr cx'"
  shows "fold (setup_rank_dim n me rn (rdeltas_of n ri co rn) rs) [0..<n] (Inr cx) = Inr cx'"
  using assms unfolding setup_rank_rn_def rdeltas_of_def Let_def
  by (simp split: if_splits)

lemma setup_rank_rn_fold:
  "fold (setup_rank_rn n me ri co rs) [0..<N] (Inr cx) = Inr cx' \<Longrightarrow>
     length (overall_domain_sizes cx') = length (overall_domain_sizes cx) \<and>
     length (rank_domain_offsets cx') = length (rank_domain_offsets cx) \<and>
     (\<forall>d. d < length (overall_domain_sizes cx) \<and> d < n \<longrightarrow>
        overall_domain_sizes cx' ! d = overall_domain_sizes cx ! d +
          sum_list (map (\<lambda>rn. if is_inline n (rdeltas_of n ri co rn) d \<and> rn \<noteq> me
                               then rs rn d else 0) [0..<N])) \<and>
     (\<forall>d. d < length (rank_domain_offsets cx) \<and> d < n \<longrightarrow>
        rank_domain_offsets cx' ! d = rank_domain_offsets cx ! d +
          sum_list (map (\<lambda>rn. if is_inline n (rdeltas_of n ri co rn) d \<and>
                                  rdeltas_of n ri co rn ! d < 0
                               then rs rn d else 0) [0..<N]))"
proof (induction N arbitrary: cx')
  case 0
  then show ?case by simp
next
  case (Suc N)
  define st where "st = fold (setup_rank_rn n me ri co rs) [0..<N] (Inr cx)"
  have step: "setup_rank_rn n me ri co rs N st = Inr cx'"
    using Suc.prems by (simp add: st_def)
  then obtain c1 where c1: "st = Inr c1"
    by (cases st) (simp_all add: setup_rank_rn_def)
  note ih = Suc.IH [OF c1 [unfolded st_def]]
  note s = setup_rank_dim_fold [OF setup_rank_rn_Inr [OF step [unfolded c1]]]
  show ?case
    using ih s by simp
qed

lemma own_sizes_fold:
  "rank_domain_offsets (fold (\<lambda>di c. c\<lparr>overall_domain_sizes := (overall_domain_sizes c)[di := f di]\<rparr>)
       [0..<k] cx) = rank_domain_offsets cx \<and>
   length (overall_domain_sizes (fold (\<lambda>di c. c\<lparr>overall_domain_sizes :=
       (overall_domain_sizes c)[di := f di]\<rparr>) [0..<k] cx)) = length (overall_domain_sizes cx) \<and>
   (\<forall>d. d < k \<and> d < length (overall_domain_sizes cx) \<longrightarrow>
      overall_domain_sizes (fold (\<lambda>di c. c\<lparr>overall_domain_sizes :=
       (overall_domain_sizes c)[di := f di]\<rparr>) [0..<k] cx) ! d = f d)"
  by (induction k) (auto simp: nth_list_update less_Suc_eq)

lemma is_inline_in_line:
  assumes "\<forall>dj<n. ri ! dj = co me dj"
  shows "is_inline n (rdeltas_of n ri co rn) d = in_line co n me rn d"
  using assms by (auto simp: is_inline_def in_line_def rdeltas_of_def list_all_iff)

lemma in_line_self: "in_line co n me me d"
  by (simp add: in_line_def list_all_iff)

lemma sum_list_split_rank:
  "me < N \<Longrightarrow>
   sum_list (map f [0..<N]) = (f me :: int) + sum_list (map (\<lambda>rn. if rn = me then 0 else f rn) [0..<N])"
proof (induction N)
  case 0
  then show ?case by simp
next
  case (Suc N)
  show ?case
  proof (cases "me = N")
    case True
    have "sum_list (map (\<lambda>rn. if rn = N then 0 else f rn) [0..<N]) = sum_list (map f [0..<N])"
      by (rule arg_cong [where f = sum_list], rule map_cong) simp_all
    then show ?thesis using True by simp
  next
    case False
    then have "me < N" using Suc.prems by simp
    from Suc.IH [OF this] False show ?thesis by simp
  qed
qed

text \<open>
  Claim C5.  When \<open>setupRank\<close> succeeds on a rank that is one of the active ranks,
  then in every domain dim \<open>d\<close> the overall domain size is the sum of the domain sizes
  in \<open>d\<close> of all ranks, this one included, whose coordinates agree with those of this
  rank in every other dim, and the domain offset of the rank is the sum of the domain
  sizes in \<open>d\<close> of those in-line ranks whose coordinate in \<open>d\<close> is smaller.
\<close>

theorem setupRank_domain_sums:
  assumes "setupRank unlayout steps_agree recv_coords recv_rsizes env opts cx = Inr (opts', cx')"
      and "my_rank env < env_num_ranks env"
      and "d < length (rank_indices opts')"
      and "d < length (overall_domain_sizes cx)"
      and "d < length (rank_domain_offsets cx)"
  shows "overall_domain_sizes cx' ! d =
           line_size (coords_table unlayout recv_coords env opts)
             (rsizes_table recv_rsizes env opts cx) (env_num_ranks env)
             (length (rank_indices opts')) (my_rank env) d \<and>
         rank_domain_offsets cx' ! d =
           line_offset (coords_table unlayout recv_coords env opts)
             (rsizes_table recv_rsizes env opts cx) (env_num_ranks env)
             (length (rank_indices opts')) (my_rank env) d"
proof -
  define me where "me = my_rank env"
  define N where "N = env_num_ranks env"
  define ri where "ri = my_indices unlayout env opts"
  define n where "n = length ri"
  define co where "co = coords_table unlayout recv_coords env opts"
  define rs where "rs = rsizes_table recv_rsizes env opts cx"
  define c0 where "c0 = cx\<lparr>rank_domain_offsets := setValsSame 0 (rank_domain_offsets cx),
                        overall_domain_sizes := setValsSame 0 (overall_domain_sizes cx)\<rparr>"
  define c1 where "c1 = fold (\<lambda>di c. c\<lparr>overall_domain_sizes :=
                                      (overall_domain_sizes c)[di := rs me di]\<rparr>) [0..<n] c0"
  have run: "fold (setup_rank_rn n me ri co rs) [0..<N] (Inr c1) = Inr cx'"
    and opts': "opts' = opts\<lparr>rank_indices := ri\<rparr>"
    using assms(1)
    unfolding setupRank_def Let_def me_def N_def ri_def n_def co_def rs_def c0_def c1_def
    by (auto split: if_splits sum.splits)
  have n: "length (rank_indices opts') = n"
    using opts' by (simp add: n_def)
  then have dn: "d < n" using assms(3) by simp
  have len0: "length (overall_domain_sizes c0) = length (overall_domain_sizes cx)"
      "length (rank_domain_offsets c0) = length (rank_domain_offsets cx)"
    by (simp_all add: c0_def setValsSame_def)
  have off0: "rank_domain_offsets c0 ! d = 0"
    using assms(5) by (simp add: c0_def setValsSame_def)
  note own = own_sizes_fold [of "\<lambda>di. rs me di" n c0]
  have c1: "rank_domain_offsets c1 = rank_domain_offsets c0"
      "length (overall_domain_sizes c1) = length (overall_domain_sizes c0)"
      "overall_domain_sizes c1 ! d = rs me d"
    using own dn assms(4) len0 unfolding c1_def by simp_all
  note acc = setup_rank_rn_fold [OF run]
  have ov: "overall_domain_sizes cx' ! d = rs me d +
          sum_list (map (\<lambda>rn. if is_inline n (rdeltas_of n ri co rn) d \<and> rn \<noteq> me
                               then rs rn d else 0) [0..<N])"
    using acc c1 len0 assms(4) dn by simp
  have off: "rank_domain_offsets cx' ! d =
          sum_list (map (\<lambda>rn. if is_inline n (rdeltas_of n ri co rn) d \<and>
                                  rdeltas_of n ri co rn ! d < 0
                               then rs rn d else 0) [0..<N])"
    using acc c1 len0 off0 assms(5) dn by simp
  have ri: "\<forall>dj<n. ri ! dj = co me dj"
    by (simp add: co_def coords_table_def me_def ri_def)
  have inl: "is_inline n (rdeltas_of n ri co rn) d = in_line co n me rn d" for rn
    using ri by (rule is_inline_in_line)
  have neg: "rdeltas_of n ri co rn ! d < 0 \<longleftrightarrow> co rn d < co me d" for rn
    using dn ri by (simp add: rdeltas_of_def)
  have meN: "me < N" using assms(2) by (simp add: me_def N_def)
  have "line_size co rs N n me d =
          rs me d + sum_list (map (\<lambda>rn. if rn = me then 0
                else (if in_line co n me rn d then rs rn d else 0)) [0..<N])"
    unfolding line_size_def
    using sum_list_split_rank [OF meN, of "\<lambda>rn. if in_line co n me rn d then rs rn d else 0"]
    by (simp add: in_line_self)
  also have "(\<lambda>rn. if rn = me then 0 else (if in_line co n me rn d then rs rn d else 0)) =
             (\<lambda>rn. if in_line co n me rn d \<and> rn \<noteq> me then rs rn d else 0)"
    by auto
  finally have A: "overall_domain_sizes cx' ! d = line_size co rs N n me d"
    using ov inl by simp
  have B: "rank_domain_offsets cx' ! d = line_offset co rs N n me d"
    using off inl neg by (simp add: line_offset_def)
  show ?thesis
    using A B n unfolding co_def rs_def N_def me_def by simp
qed

text \<open>
  The theorem at rank 3 of the 2 by 2 example: the overall domain is 144 by 80 and the
  rank starts at \<open>(64, 32)\<close>.
\<close>

theorem setupRank_domain_sums_witness:
  "setupRank (\<lambda>nr r. []) True grid_coords grid_rsizes grid_env grid_settings ex_context =
     Inr (grid_settings,
          ex_context\<lparr>rank_domain_offsets := [64, 32], overall_domain_sizes := [144, 80]\<rparr>) \<and>
   my_rank grid_env < env_num_ranks grid_env \<and>
   0 < length (rank_indices grid_settings) \<and>
   0 < length (overall_domain_sizes ex_context) \<and>
   0 < length (rank_domain_offsets ex_context) \<and>
   overall_domain_sizes
       (ex_context\<lparr>rank_domain_offsets := [64, 32], overall_domain_sizes := [144, 80]\<rparr>) ! 0 =
     line_size (coords_table (\<lambda>nr r. []) grid_coords grid_env grid_settings)
       (rsizes_table grid_rsizes grid_env grid_settings ex_context) (env_num_ranks grid_env)
       (length (rank_indices grid_settings)) (my_rank grid_env) 0 \<and>
   rank_domain_offsets
       (ex_context\<lparr>rank_domain_offsets := [64, 32], overall_domain_sizes := [144, 80]\<rparr>) ! 0 =
     line_offset (coords_table (\<lambda>nr r. []) grid_coords grid_env grid_settings)
       (rsizes_table grid_rsizes grid_env grid_settings ex_context) (env_num_ranks grid_env)
       (length (rank_indices grid_settings)) (my_rank grid_env) 0"
proof -
  have run: "setupRank (\<lambda>nr r. []) True grid_coords grid_rsizes grid_env grid_settings ex_context =
     Inr (grid_settings,
          ex_context\<lparr>rank_domain_offsets := [64, 32], overall_domain_sizes := [144, 80]\<rparr>)"
    by code_simp
  have h: "my_rank grid_env < env_num_ranks grid_env"
      "0 < length (rank_indices grid_settings)"
      "0 < length (overall_domain_sizes ex_context)"
      "0 < length (rank_domain_offsets ex_context)"
    by (simp_all add: grid_env_def grid_settings_def ex_context_def)
  from setupRank_domain_sums [OF run h] run h show ?thesis by blast
qed

lemma setup_rank_dim_error:
  "fold (setup_rank_dim n me rn rd rs) ds (Inr cx) = Inl e \<Longrightarrow> \<not> layout_error e"
proof (induction ds arbitrary: cx)
  case Nil
  then show ?case by simp
next
  case (Cons di ds)
  show ?case
  proof (cases "setup_rank_dim n me rn rd rs di (Inr cx)")
    case (Inl e')
    then have "e' = Unaligned rn me"
      unfolding setup_rank_dim_def Let_def by (auto split: if_splits)
    then show ?thesis using Cons.prems Inl by (auto simp: setup_rank_dim_Inl)
  next
    case (Inr c1)
    then show ?thesis using Cons by simp
  qed
qed

lemma mandist_same_coords:
  assumes "\<forall>dj<n. ri ! dj = co me dj" and "same_coords co n rn me"
  shows "fold (\<lambda>di m. idx_to_int (m + \<bar>map (\<lambda>di. co rn di - ri ! di) [0..<n] ! di\<bar>)) [0..<n] 0 = 0"
proof -
  have z: "manhattan co n rn me = 0"
    using assms(2) by (simp add: manhattan_zero)
  then have "manhattan co n rn me < 2147483648" by simp
  from mandist_manhattan [of n ri co me rn] assms(1) this z show ?thesis by simp
qed

lemma mandist_apart:
  assumes "\<forall>dj<n. ri ! dj = co me dj" and "manhattan co n rn me < 2147483648"
      and "\<not> same_coords co n rn me"
  shows "fold (\<lambda>di m. idx_to_int (m + \<bar>map (\<lambda>di. co rn di - ri ! di) [0..<n] ! di\<bar>)) [0..<n] 0 \<noteq> 0"
  using mandist_manhattan [of n ri co me rn] assms by (simp add: manhattan_zero)

lemma setup_rank_rn_error:
  assumes "\<forall>dj<n. ri ! dj = co me dj"
      and "\<forall>rn \<in> set rns. rn \<noteq> me \<longrightarrow>
             \<not> same_coords co n rn me \<and> manhattan co n rn me < 2147483648"
  shows "fold (setup_rank_rn n me ri co rs) rns (Inr cx) = Inl e \<Longrightarrow> \<not> layout_error e"
  using assms(2)
proof (induction rns arbitrary: cx)
  case Nil
  then show ?case by simp
next
  case (Cons rn rns)
  have self: "same_coords co n me me"
    by (simp add: same_coords_def list_all_iff)
  have own: "fold (\<lambda>di m. idx_to_int (m + \<bar>map (\<lambda>di. co me di - ri ! di) [0..<n] ! di\<bar>)) [0..<n] 0 = 0"
    using mandist_same_coords [of n ri co me me] assms(1) self by simp
  have other: "fold (\<lambda>di m. idx_to_int (m + \<bar>map (\<lambda>di. co rn di - ri ! di) [0..<n] ! di\<bar>)) [0..<n] 0 \<noteq> 0"
    if "rn \<noteq> me"
    using that Cons.prems(2) assms(1) by (intro mandist_apart [of n ri co me rn]) simp_all
  have body: "setup_rank_rn n me ri co rs rn (Inr cx) =
      fold (setup_rank_dim n me rn (map (\<lambda>di. co rn di - ri ! di) [0..<n]) rs) [0..<n] (Inr cx)"
  proof (cases "rn = me")
    case True
    then show ?thesis
      using own unfolding setup_rank_rn_def Let_def by simp
  next
    case False
    then show ?thesis
      using other unfolding setup_rank_rn_def Let_def by simp
  qed
  show ?case
  proof (cases "setup_rank_rn n me ri co rs rn (Inr cx)")
    case (Inl e')
    then have "e = e'" using Cons.prems(1) by (simp add: setup_rank_rn_Inl)
    then show ?thesis using Inl body setup_rank_dim_error by metis
  next
    case (Inr c1)
    then show ?thesis using Cons by simp
  qed
qed

lemma setup_rank_rn_clash:
  assumes "\<forall>dj<n. ri ! dj = co me dj"
      and "rn < N" and "rn \<noteq> me" and "same_coords co n rn me"
  shows "\<exists>e. fold (setup_rank_rn n me ri co rs) [0..<N] st = Inl e"
proof -
  have split: "[0..<N] = [0..<rn] @ rn # [Suc rn..<N]"
    using assms(2) by (metis le0 upt_conv_Cons upt_add_eq_append le_add_diff_inverse less_imp_le_nat)
  have md: "fold (\<lambda>di m. idx_to_int (m + \<bar>map (\<lambda>di. co rn di - ri ! di) [0..<n] ! di\<bar>)) [0..<n] 0 = 0"
    using mandist_same_coords [of n ri co me rn] assms(1) assms(4) by simp
  have "\<exists>e. setup_rank_rn n me ri co rs rn s = Inl e" for s
    using md assms(3) unfolding setup_rank_rn_def Let_def by (cases s) auto
  then obtain e where "setup_rank_rn n me ri co rs rn (fold (setup_rank_rn n me ri co rs) [0..<rn] st) = Inl e"
    by blast
  then show ?thesis
    by (subst split) (simp add: setup_rank_rn_Inl)
qed

text \<open>
  The two layout checks on ranks that are less than \<open>2 ^ 31\<close> apart.  \<open>setupRank\<close>
  throws when the product of the numbers of ranks requested per dim is not the number
  of active ranks; it throws when another active rank has the coordinates of this rank;
  and when the product is the number of active ranks, no other rank has the coordinates
  of this rank and every rank is less than \<open>2 ^ 31\<close> away, neither layout check throws,
  for any rank of the loop.
\<close>

lemma setupRank_layout_checks_near:
  "(prod_list (num_ranks opts) \<noteq> int (env_num_ranks env) \<longrightarrow>
      setupRank unlayout steps_agree recv_coords recv_rsizes env opts cx =
        Inl (RanksRequested (prod_list (num_ranks opts)) (env_num_ranks env))) \<and>
   ((\<exists>rn < env_num_ranks env. rn \<noteq> my_rank env \<and>
        same_coords (coords_table unlayout recv_coords env opts)
          (length (my_indices unlayout env opts)) rn (my_rank env)) \<longrightarrow>
      (\<exists>e. setupRank unlayout steps_agree recv_coords recv_rsizes env opts cx = Inl e)) \<and>
   (prod_list (num_ranks opts) = int (env_num_ranks env) \<and>
    (\<forall>rn < env_num_ranks env. rn \<noteq> my_rank env \<longrightarrow>
        \<not> same_coords (coords_table unlayout recv_coords env opts)
            (length (my_indices unlayout env opts)) rn (my_rank env) \<and>
        manhattan (coords_table unlayout recv_coords env opts)
            (length (my_indices unlayout env opts)) rn (my_rank env) < 2147483648) \<longrightarrow>
      (\<forall>e. setupRank unlayout steps_agree recv_coords recv_rsizes env opts cx = Inl e \<longrightarrow>
           \<not> layout_error e))"
proof -
  define me where "me = my_rank env"
  define N where "N = env_num_ranks env"
  define ri where "ri = my_indices unlayout env opts"
  define n where "n = length ri"
  define co where "co = coords_table unlayout recv_coords env opts"
  define rs where "rs = rsizes_table recv_rsizes env opts cx"
  define c1 where "c1 = fold (\<lambda>di c. c\<lparr>overall_domain_sizes :=
                                      (overall_domain_sizes c)[di := rs me di]\<rparr>) [0..<n]
       (cx\<lparr>rank_domain_offsets := setValsSame 0 (rank_domain_offsets cx),
            overall_domain_sizes := setValsSame 0 (overall_domain_sizes cx)\<rparr>)"
  have ri: "\<forall>dj<n. ri ! dj = co me dj"
    by (simp add: co_def coords_table_def me_def ri_def)
  have unf: "setupRank unlayout steps_agree recv_coords recv_rsizes env opts cx =
       (if prod_list (num_ranks opts) \<noteq> int N
        then Inl (RanksRequested (prod_list (num_ranks opts)) N)
        else if \<not> steps_agree then Inl NumStepsDiffer
        else case fold (setup_rank_rn n me ri co rs) [0..<N] (Inr c1) of
               Inl e \<Rightarrow> Inl e
             | Inr c \<Rightarrow> Inr (opts\<lparr>rank_indices := ri\<rparr>, c))"
    unfolding setupRank_def Let_def me_def N_def ri_def n_def co_def rs_def c1_def
    by simp
  have A: "prod_list (num_ranks opts) \<noteq> int N \<Longrightarrow>
      setupRank unlayout steps_agree recv_coords recv_rsizes env opts cx =
        Inl (RanksRequested (prod_list (num_ranks opts)) N)"
    by (simp add: unf)
  have B: "\<exists>e. setupRank unlayout steps_agree recv_coords recv_rsizes env opts cx = Inl e"
    if clash: "rn < N" "rn \<noteq> me" "same_coords co n rn me" for rn
  proof -
    obtain e where "fold (setup_rank_rn n me ri co rs) [0..<N] (Inr c1) = Inl e"
      using setup_rank_rn_clash [of n ri co me rn N rs "Inr c1"] ri clash by blast
    then show ?thesis by (simp add: unf)
  qed
  have C: "\<not> layout_error e"
    if "prod_list (num_ranks opts) = int N"
      and "\<forall>rn < N. rn \<noteq> me \<longrightarrow>
             \<not> same_coords co n rn me \<and> manhattan co n rn me < 2147483648"
      and "setupRank unlayout steps_agree recv_coords recv_rsizes env opts cx = Inl e" for e
  proof (cases steps_agree)
    case False
    have "setupRank unlayout steps_agree recv_coords recv_rsizes env opts cx = Inl NumStepsDiffer"
      unfolding unf using False that(1) by simp
    then have "e = NumStepsDiffer" using that(3) by simp
    then show ?thesis by simp
  next
    case True
    have "(case fold (setup_rank_rn n me ri co rs) [0..<N] (Inr c1) of
               Inl e \<Rightarrow> Inl e
             | Inr c \<Rightarrow> Inr (opts\<lparr>rank_indices := ri\<rparr>, c)) = Inl e"
      using that(1,3) True unfolding unf by simp
    then have "fold (setup_rank_rn n me ri co rs) [0..<N] (Inr c1) = Inl e"
      by (simp split: sum.splits)
    moreover have "\<forall>rn \<in> set [0..<N]. rn \<noteq> me \<longrightarrow>
             \<not> same_coords co n rn me \<and> manhattan co n rn me < 2147483648"
      using that(2) by simp
    ultimately show ?thesis
      using setup_rank_rn_error [of n ri co me "[0..<N]" rs c1 e] ri by blast
  qed
  show ?thesis
    using A B C unfolding me_def N_def co_def n_def ri_def by blast
qed


text \<open>
  The same layout with every rank in its place: the call does not throw the exception
  of the coordinate check; with three active ranks the four ranks requested are
  refused; and with rank 1 on the coordinates of rank 3 the call throws.
\<close>

lemma setupRank_layout_checks_example:
  "setupRank (\<lambda>nr r. []) True grid_coords grid_rsizes three_env grid_settings ex_context =
     Inl (RanksRequested 4 3) \<and>
   setupRank (\<lambda>nr r. []) True clash_coords grid_rsizes grid_env grid_settings ex_context =
     Inl (SameCoordinates 3 1) \<and>
   setupRank (\<lambda>nr r. []) True grid_coords grid_rsizes grid_env grid_settings ex_context =
     Inr (grid_settings,
          ex_context\<lparr>rank_domain_offsets := [64, 32], overall_domain_sizes := [144, 80]\<rparr>)"
proof -
  have "setupRank (\<lambda>nr r. []) True grid_coords grid_rsizes three_env grid_settings ex_context =
     Inl (RanksRequested 4 3)"
    "setupRank (\<lambda>nr r. []) True clash_coords grid_rsizes grid_env grid_settings ex_context =
     Inl (SameCoordinates 3 1)"
    "setupRank (\<lambda>nr r. []) True grid_coords grid_rsizes grid_env grid_settings ex_context =
     Inr (grid_settings,
          ex_context\<lparr>rank_domain_offsets := [64, 32], overall_domain_sizes := [144, 80]\<rparr>)"
    by code_simp+
  then show ?thesis
    by blast
qed

section \<open>Properties of the step-dim allocation\<close>

lemma step_info_stage_fst:
  assumes "1 \<le> m"
  shows "fst (step_info_stage wps hi (m, wb)) = max m (stage_size wps hi)"
proof -
  obtain w f l where sc: "scan_stage wps (fst hi) (snd hi) = (w, f, l)"
    by (cases "scan_stage wps (fst hi) (snd hi)") auto
  obtain a b where mh: "fold (max_halo_side f l) (snd hi) (0, 0) = (a, b)"
    by (cases "fold (max_halo_side f l) (snd hi) (0, 0)") auto
  show ?thesis
    using assms unfolding step_info_stage_def stage_size_def Let_def sc mh
    by simp
qed

lemma step_info_fold_fst:
  "1 \<le> m \<Longrightarrow>
   fst (fold (step_info_stage wps) hs (m, wb)) = Max (insert m (stage_size wps ` set hs))"
proof (induction hs arbitrary: m wb)
  case Nil
  then show ?case by simp
next
  case (Cons hi hs)
  obtain m1 wb1 where s: "step_info_stage wps hi (m, wb) = (m1, wb1)"
    by (cases "step_info_stage wps hi (m, wb)") auto
  have m1: "m1 = max m (stage_size wps hi)"
    using step_info_stage_fst [OF Cons.prems, of wps hi wb] s by simp
  then have "1 \<le> m1" using Cons.prems by simp
  then have "fst (fold (step_info_stage wps) (hi # hs) (m, wb)) =
          Max (insert m1 (stage_size wps ` set hs))"
    using Cons.IH [of m1 wb1] s by simp
  also have "\<dots> = Max (insert m (insert (stage_size wps hi) (stage_size wps ` set hs)))"
  proof (cases "set hs = {}")
    case True
    then show ?thesis by (simp add: m1)
  next
    case False
    then show ?thesis
      by (simp add: m1 max.assoc)
  qed
  finally show ?case by simp
qed

text \<open>
  Claim C9.  \<open>get_step_dim_info\<close> returns the same result whatever the per-var
  \<open>_step_alloc\<close> and the command-line \<open>_step_alloc\<close> are: the final assignment
  overwrites both overrides.  For a var with a step dim and recorded halos the
  \<open>step_dim_size\<close> returned is the largest of 1 and the sizes computed for the stages;
  a var with no step dim or no recorded halos gets the default \<open>StepDimInfo\<close>.
\<close>

theorem get_step_dim_info_override_ignored:
  "get_step_dim_info sdi0 cmd (v\<lparr>step_alloc := a\<rparr>) = get_step_dim_info sdi0 0 (v\<lparr>step_alloc := 0\<rparr>) \<and>
   step_dim_size (get_step_dim_info sdi0 cmd (v\<lparr>step_alloc := a\<rparr>)) =
     (if step_dim v = None \<or> halos v = [] then step_dim_size sdi0
      else Max (insert 1 (stage_size (write_points v) ` set (halos v))))"
proof -
  have 1: "get_step_dim_info sdi0 cmd (v\<lparr>step_alloc := a\<rparr>) =
           get_step_dim_info sdi0 0 (v\<lparr>step_alloc := 0\<rparr>)"
    by (simp add: get_step_dim_info_def Let_def)
  have 2: "step_dim_size (get_step_dim_info sdi0 0 (v\<lparr>step_alloc := 0\<rparr>)) =
     (if step_dim v = None \<or> halos v = [] then step_dim_size sdi0
      else Max (insert 1 (stage_size (write_points v) ` set (halos v))))"
    by (simp add: get_step_dim_info_def Let_def step_info_fold_fst)
  show ?thesis using 1 2 by simp
qed

text \<open>
  Claim C2.  The var \<open>var_mid_write\<close> has one stage with halo entries at the step
  offsets \<open>-1\<close>, \<open>0\<close> and \<open>1\<close>, all of size zero, and the stage writes at offset \<open>0\<close>,
  which is neither the lowest nor the highest offset.  The range of its offsets is 3
  and the stage does not write at an extreme offset, yet \<open>get_step_dim_info\<close> takes one
  off and returns 2, recording no writeback offset.
\<close>

theorem get_step_dim_info_mid_write:
  "halos var_mid_write =
     [(''s1'', [(False, [(1, [])]),
                (True, [(-1, [(''x'', 0)]), (0, [(''x'', 0)]), (1, [(''x'', 0)])])])] \<and>
   write_points var_mid_write = [(''s1'', 0)] \<and>
   scan_stage (write_points var_mid_write) ''s1'' (cmap_at (halos var_mid_write) ''s1'')
     = (True, -1, 1) \<and>
   get_step_dim_info sdi_one 0 var_mid_write = \<lparr>step_dim_size = 2, writeback_ofs = []\<rparr>"
  by code_simp

section \<open>Properties of \<open>update_halo\<close>\<close>

lemma map_of_cmap_put:
  "map_of (cmap_put k v m) k' = (if k' = k then Some v else map_of m k')"
  by (induction m) auto

lemma cmap_at_cmap_put:
  "cmap_at (cmap_put k v m) k' = (if k' = k then v else cmap_at m k')"
  by (simp add: cmap_at_def map_of_cmap_put)

lemma halo_tuple_put:
  "halo_tuple (put_halo_tuple s l t x hs) s' l' t' =
     (if s' = s \<and> l' = l \<and> t' = t then x else halo_tuple hs s' l' t')"
  by (simp add: halo_tuple_def put_halo_tuple_def cmap_at_cmap_put)

lemma lookup_add_dim_back:
  "lookup t d = None \<Longrightarrow> lookup (add_dim_back d v t) d' = (if d' = d then Some v else lookup t d')"
  by (auto simp: lookup_def add_dim_back_def map_add_def split: option.splits)

lemma lookup_set_val:
  "lookup (set_val d v t) d' = (if d' = d \<and> lookup t d \<noteq> None then Some v else lookup t d')"
  by (induction t) (auto simp: lookup_def)

lemma halo_val_put_same:
  "halo_val (put_halo_tuple s l t (halo_tuple hs s l t) hs) s' l' t' d = halo_val hs s' l' t' d"
  by (simp add: halo_val_def halo_tuple_put)

text \<open>One iteration of the loop, read through \<open>halo_val\<close>.\<close>

lemma update_halo_dim_val:
  assumes "update_halo_dim sdim stage sv (dn, x) (hs, ch, l1) = (hs', ch', l1')"
  shows "halo_val hs' s l t d =
           (if s = stage \<and> l = (x \<le> 0) \<and> t = sv \<and> d = dn \<and> sdim \<noteq> Some dn
            then Some (raised (halo_val hs stage (x \<le> 0) sv dn) \<bar>x\<bar>)
            else halo_val hs s l t d)"
    and "ch' = (ch \<or> (sdim \<noteq> Some dn \<and>
             (case halo_val hs stage (x \<le> 0) sv dn of None \<Rightarrow> True | Some p \<Rightarrow> p < \<bar>x\<bar>)))"
proof -
  show "halo_val hs' s l t d =
           (if s = stage \<and> l = (x \<le> 0) \<and> t = sv \<and> d = dn \<and> sdim \<noteq> Some dn
            then Some (raised (halo_val hs stage (x \<le> 0) sv dn) \<bar>x\<bar>)
            else halo_val hs s l t d)"
    using assms unfolding update_halo_dim_def Let_def
    by (auto simp: halo_val_def halo_tuple_put lookup_add_dim_back lookup_set_val raised_def
             split: if_splits option.splits)
  show "ch' = (ch \<or> (sdim \<noteq> Some dn \<and>
             (case halo_val hs stage (x \<le> 0) sv dn of None \<Rightarrow> True | Some p \<Rightarrow> p < \<bar>x\<bar>)))"
    using assms unfolding update_halo_dim_def Let_def
    by (auto simp: halo_val_def split: if_splits option.splits)
qed

text \<open>The whole loop over a tuple of offsets, whose dim names are distinct.\<close>

lemma update_halo_fold:
  assumes "distinct (map fst offs)"
      and "fold (update_halo_dim sdim stage sv) offs (hs, ch, l1) = (hs', ch', l1')"
  shows "(\<forall>s l t d. halo_val hs' s l t d =
            (case map_of offs d of
               None \<Rightarrow> halo_val hs s l t d
             | Some x \<Rightarrow>
                 if s = stage \<and> l = (x \<le> 0) \<and> t = sv \<and> sdim \<noteq> Some d
                 then Some (raised (halo_val hs stage (x \<le> 0) sv d) \<bar>x\<bar>)
                 else halo_val hs s l t d)) \<and>
         (ch' \<longleftrightarrow> ch \<or> (\<exists>d x. (d, x) \<in> set offs \<and> sdim \<noteq> Some d \<and>
             (case halo_val hs stage (x \<le> 0) sv d of None \<Rightarrow> True | Some p \<Rightarrow> p < \<bar>x\<bar>)))"
  using assms
proof (induction offs arbitrary: hs ch l1)
  case Nil
  then show ?case by simp
next
  case (Cons o1 offs)
  obtain dn x where o1: "o1 = (dn, x)" by (cases o1)
  obtain hs1 ch1 l11 where s1: "update_halo_dim sdim stage sv (dn, x) (hs, ch, l1) = (hs1, ch1, l11)"
    by (cases "update_halo_dim sdim stage sv (dn, x) (hs, ch, l1)") auto
  note v1 = update_halo_dim_val [OF s1]
  have rest: "fold (update_halo_dim sdim stage sv) offs (hs1, ch1, l11) = (hs', ch', l1')"
    using Cons.prems(2) o1 s1 by simp
  have dist: "distinct (map fst offs)" and fresh: "dn \<notin> fst ` set offs"
    using Cons.prems(1) o1 by simp_all
  have none: "map_of offs dn = None"
    using fresh by (simp add: map_of_eq_None_iff)
  note ih = Cons.IH [OF dist rest]
  have other: "halo_val hs1 s l t d = halo_val hs s l t d" if "d \<noteq> dn" for s l t d
    using v1(1) [of s l t d] that by simp
  have A: "halo_val hs' s l t d =
            (case map_of (o1 # offs) d of
               None \<Rightarrow> halo_val hs s l t d
             | Some x \<Rightarrow>
                 if s = stage \<and> l = (x \<le> 0) \<and> t = sv \<and> sdim \<noteq> Some d
                 then Some (raised (halo_val hs stage (x \<le> 0) sv d) \<bar>x\<bar>)
                 else halo_val hs s l t d)" for s l t d
  proof (cases "d = dn")
    case True
    have "halo_val hs' s l t dn = halo_val hs1 s l t dn"
      using ih none by simp
    then show ?thesis
      using True o1 v1(1) [of s l t dn] by simp
  next
    case False
    have "halo_val hs' s l t d =
            (case map_of offs d of
               None \<Rightarrow> halo_val hs1 s l t d
             | Some x \<Rightarrow>
                 if s = stage \<and> l = (x \<le> 0) \<and> t = sv \<and> sdim \<noteq> Some d
                 then Some (raised (halo_val hs1 stage (x \<le> 0) sv d) \<bar>x\<bar>)
                 else halo_val hs1 s l t d)"
      using ih by simp
    then show ?thesis
      using False o1 other by (simp split: option.splits)
  qed
  have "(\<exists>d y. (d, y) \<in> set offs \<and> sdim \<noteq> Some d \<and>
             (case halo_val hs1 stage (y \<le> 0) sv d of None \<Rightarrow> True | Some p \<Rightarrow> p < \<bar>y\<bar>)) =
        (\<exists>d y. (d, y) \<in> set offs \<and> sdim \<noteq> Some d \<and>
             (case halo_val hs stage (y \<le> 0) sv d of None \<Rightarrow> True | Some p \<Rightarrow> p < \<bar>y\<bar>))"
  proof -
    have "halo_val hs1 stage (y \<le> 0) sv d = halo_val hs stage (y \<le> 0) sv d"
      if "(d, y) \<in> set offs" for d y
    proof -
      have "d \<noteq> dn" using that fresh by force
      then show ?thesis by (rule other)
    qed
    then show ?thesis by metis
  qed
  then have B: "ch' \<longleftrightarrow> ch \<or> (\<exists>d x. (d, x) \<in> set (o1 # offs) \<and> sdim \<noteq> Some d \<and>
             (case halo_val hs stage (x \<le> 0) sv d of None \<Rightarrow> True | Some p \<Rightarrow> p < \<bar>x\<bar>))"
    using ih v1(2) o1 by auto
  show ?case using A B by blast
qed

lemma update_halo_result:
  obtains hs' ch' l1' where
    "fold (update_halo_dim (step_dim v) stage (step_val_of v offsets)) offsets (halos v, False, 0)
       = (hs', ch', l1')"
    "fst (update_halo stage offsets v) = ch'"
    "halos (snd (update_halo stage offsets v)) = hs'"
proof -
  obtain hs' ch' l1' where
    f: "fold (update_halo_dim (step_dim v) stage (step_val_of v offsets)) offsets (halos v, False, 0)
       = (hs', ch', l1')"
    by (cases "fold (update_halo_dim (step_dim v) stage (step_val_of v offsets)) offsets
                 (halos v, False, 0)") auto
  have "fst (update_halo stage offsets v) = ch'" "halos (snd (update_halo stage offsets v)) = hs'"
    using f by (simp_all add: update_halo_def step_val_of_def update_l1_dist_def Let_def)
  with f show thesis by (rule that)
qed

text \<open>
  Claim C7.  A call \<open>update_halo(stage, offsets)\<close>, where \<open>offsets\<close> is a tuple (its dim
  names are distinct): every offset of a dim other than the step dim of the var is
  recorded under the stage, the side that is left exactly when the offset is \<open>\<le> 0\<close>,
  and the step offset of the call, and the stored value becomes the absolute value of
  the offset, or the maximum of it and the value stored before; no stored halo value
  decreases or disappears; and the call returns true exactly when some halo entry was
  added or increased.
\<close>

theorem update_halo_records_max:
  assumes "distinct (map fst offsets)"
  shows "(\<forall>dname val. (dname, val) \<in> set offsets \<and> step_dim v \<noteq> Some dname \<longrightarrow>
            halo_val (halos (snd (update_halo stage offsets v))) stage (val \<le> 0)
                (step_val_of v offsets) dname
              = Some (raised (halo_val (halos v) stage (val \<le> 0) (step_val_of v offsets) dname)
                        \<bar>val\<bar>)) \<and>
         (\<forall>s l t d p. halo_val (halos v) s l t d = Some p \<longrightarrow>
            (\<exists>q. halo_val (halos (snd (update_halo stage offsets v))) s l t d = Some q \<and> p \<le> q)) \<and>
         (fst (update_halo stage offsets v) \<longleftrightarrow>
            (\<exists>s l t d.
               (halo_val (halos v) s l t d = None \<and>
                halo_val (halos (snd (update_halo stage offsets v))) s l t d \<noteq> None) \<or>
               (\<exists>p q. halo_val (halos v) s l t d = Some p \<and>
                  halo_val (halos (snd (update_halo stage offsets v))) s l t d = Some q \<and> p < q)))"
proof -
  define sv where "sv = step_val_of v offsets"
  obtain hs' ch' l1' where
    f: "fold (update_halo_dim (step_dim v) stage sv) offsets (halos v, False, 0) = (hs', ch', l1')"
    and r: "fst (update_halo stage offsets v) = ch'" "halos (snd (update_halo stage offsets v)) = hs'"
    unfolding sv_def by (rule update_halo_result)
  note fold = update_halo_fold [OF assms f]
  have val: "halo_val hs' s l t d =
            (case map_of offsets d of
               None \<Rightarrow> halo_val (halos v) s l t d
             | Some x \<Rightarrow>
                 if s = stage \<and> l = (x \<le> 0) \<and> t = sv \<and> step_dim v \<noteq> Some d
                 then Some (raised (halo_val (halos v) stage (x \<le> 0) sv d) \<bar>x\<bar>)
                 else halo_val (halos v) s l t d)" for s l t d
    using fold by simp
  have ch: "ch' \<longleftrightarrow> (\<exists>d x. (d, x) \<in> set offsets \<and> step_dim v \<noteq> Some d \<and>
             (case halo_val (halos v) stage (x \<le> 0) sv d of None \<Rightarrow> True | Some p \<Rightarrow> p < \<bar>x\<bar>))"
    using fold by simp
  have mo: "map_of offsets d = Some x" if "(d, x) \<in> set offsets" for d x
    using that assms by simp
  have a: "halo_val hs' stage (x \<le> 0) sv d = Some (raised (halo_val (halos v) stage (x \<le> 0) sv d) \<bar>x\<bar>)"
    if "(d, x) \<in> set offsets" "step_dim v \<noteq> Some d" for d x
    using val [of stage "x \<le> 0" sv d] mo [OF that(1)] that(2) by simp
  have b: "\<exists>q. halo_val hs' s l t d = Some q \<and> p \<le> q" if "halo_val (halos v) s l t d = Some p"
    for s l t d p
    using val [of s l t d] that by (auto simp: raised_def split: option.splits)
  have c1: "\<exists>s l t d.
               (halo_val (halos v) s l t d = None \<and> halo_val hs' s l t d \<noteq> None) \<or>
               (\<exists>p q. halo_val (halos v) s l t d = Some p \<and> halo_val hs' s l t d = Some q \<and> p < q)"
    if chp: ch'
  proof -
    obtain d x where dx: "(d, x) \<in> set offsets" "step_dim v \<noteq> Some d"
        "case halo_val (halos v) stage (x \<le> 0) sv d of None \<Rightarrow> True | Some p \<Rightarrow> p < \<bar>x\<bar>"
      using chp ch by blast
    show ?thesis
    proof (cases "halo_val (halos v) stage (x \<le> 0) sv d")
      case None
      then show ?thesis using a [OF dx(1,2)] by (intro exI [of _ stage] exI [of _ "x \<le> 0"] exI [of _ sv] exI [of _ d]) simp
    next
      case (Some p)
      then have "p < \<bar>x\<bar>" using dx(3) by simp
      then have "halo_val hs' stage (x \<le> 0) sv d = Some \<bar>x\<bar>"
        using a [OF dx(1,2)] Some by (simp add: raised_def)
      then show ?thesis
        using Some \<open>p < \<bar>x\<bar>\<close>
        by (intro exI [of _ stage] exI [of _ "x \<le> 0"] exI [of _ sv] exI [of _ d]) simp
    qed
  qed
  have c2: ch'
    if "(halo_val (halos v) s l t d = None \<and> halo_val hs' s l t d \<noteq> None) \<or>
        (\<exists>p q. halo_val (halos v) s l t d = Some p \<and> halo_val hs' s l t d = Some q \<and> p < q)"
    for s l t d
  proof -
    have ne: "halo_val hs' s l t d \<noteq> halo_val (halos v) s l t d"
      using that by auto
    then obtain x where x: "map_of offsets d = Some x"
      using val [of s l t d] by (cases "map_of offsets d") simp_all
    have k: "s = stage" "l = (x \<le> 0)" "t = sv" "step_dim v \<noteq> Some d"
      using ne val [of s l t d] x by (simp_all split: if_splits)
    have "case halo_val (halos v) stage (x \<le> 0) sv d of None \<Rightarrow> True | Some p \<Rightarrow> p < \<bar>x\<bar>"
      using that val [of s l t d] x k by (auto simp: raised_def split: option.splits)
    moreover have "(d, x) \<in> set offsets" using x by (rule map_of_SomeD)
    ultimately show ?thesis using ch k by blast
  qed
  show ?thesis
    unfolding r sv_def [symmetric]
    using a b c1 c2 by blast
qed

text \<open>
  The theorem at the var \<open>var_fwd\<close>, whose left halo in \<open>x\<close> at step offset 0 is 2, and
  a read of \<open>A(t, x-3, y+2)\<close>: the left halo in \<open>x\<close> becomes 3 and the call returns true.
\<close>

theorem update_halo_records_max_witness:
  "distinct (map fst [(''t'', 0::int), (''x'', -3), (''y'', 2)]) \<and>
   halo_val (halos (snd (update_halo ''s1'' [(''t'', 0), (''x'', -3), (''y'', 2)] var_fwd)))
       ''s1'' ((-3::int) \<le> 0) (step_val_of var_fwd [(''t'', 0), (''x'', -3), (''y'', 2)]) ''x''
     = Some (raised (halo_val (halos var_fwd) ''s1'' ((-3::int) \<le> 0)
                (step_val_of var_fwd [(''t'', 0), (''x'', -3), (''y'', 2)]) ''x'') \<bar>-3\<bar>) \<and>
   halo_val (halos var_fwd) ''s1'' True 0 ''x'' = Some 2 \<and>
   halo_val (halos (snd (update_halo ''s1'' [(''t'', 0), (''x'', -3), (''y'', 2)] var_fwd)))
       ''s1'' True 0 ''x'' = Some 3 \<and>
   fst (update_halo ''s1'' [(''t'', 0), (''x'', -3), (''y'', 2)] var_fwd)"
proof -
  have h: "distinct (map fst [(''t'', 0::int), (''x'', -3), (''y'', 2)])"
    by simp
  have m: "(''x'', -3) \<in> set [(''t'', 0::int), (''x'', -3), (''y'', 2)]"
    by simp
  have s: "step_dim var_fwd \<noteq> Some ''x''"
    by code_simp
  have e1: "halo_val (halos var_fwd) ''s1'' True 0 ''x'' = Some 2"
    by code_simp
  have e2: "halo_val (halos (snd (update_halo ''s1'' [(''t'', 0), (''x'', -3), (''y'', 2)] var_fwd)))
       ''s1'' True 0 ''x'' = Some 3"
    by code_simp
  have e3: "fst (update_halo ''s1'' [(''t'', 0), (''x'', -3), (''y'', 2)] var_fwd)"
    by code_simp
  from update_halo_records_max [OF h, of var_fwd "''s1''"] m s
  have "halo_val (halos (snd (update_halo ''s1'' [(''t'', 0), (''x'', -3), (''y'', 2)] var_fwd)))
       ''s1'' ((-3::int) \<le> 0) (step_val_of var_fwd [(''t'', 0), (''x'', -3), (''y'', 2)]) ''x''
     = Some (raised (halo_val (halos var_fwd) ''s1'' ((-3::int) \<le> 0)
                (step_val_of var_fwd [(''t'', 0), (''x'', -3), (''y'', 2)]) ''x'') \<bar>-3\<bar>)"
    by blast
  with h e1 e2 e3 show ?thesis by blast
qed

section \<open>Properties of the element APIs\<close>

text \<open>
  Claim C10.  With no storage allocated, \<open>set_element\<close> and \<open>add_to_element\<close> throw
  exactly when \<open>strict_indices\<close> is true, and otherwise return 0 and leave the var, its
  dirty flags included, as it was.  With storage allocated and the index check
  passed, they write the one element of the indices (the value, or the old element
  plus the value), set the dirty flag of the allocation-step index computed from the
  indices, and return 1.
\<close>

theorem set_element_add_to_element:
  "(elems v = None \<longrightarrow>
      ((\<exists>e. set_element chk val indices strict v = Inl e) \<longleftrightarrow> strict) \<and>
      ((\<exists>e. add_to_element chk val indices strict v = Inl e) \<longleftrightarrow> strict) \<and>
      (\<not> strict \<longrightarrow> set_element chk val indices strict v = Inr (0, v) \<and>
                    add_to_element chk val indices strict v = Inr (0, v))) \<and>
   (elems v = Some st \<and> chk indices strict False = Inr True \<longrightarrow>
      set_element chk val indices strict v =
        Inr (1, v\<lparr>elems := Some (st (elem_key v indices (get_alloc_step_index v indices) := val)),
                  dirty_steps := (dirty_steps v)[get_alloc_step_index v indices := True]\<rparr>)) \<and>
   (elems v = Some st \<and> chk indices strict True = Inr True \<longrightarrow>
      add_to_element chk val indices strict v =
        Inr (1, v\<lparr>elems := Some (st (elem_key v indices (get_alloc_step_index v indices) :=
                      st (elem_key v indices (get_alloc_step_index v indices)) + val)),
                  dirty_steps := (dirty_steps v)[get_alloc_step_index v indices := True]\<rparr>))"
proof -
  have n: "elems v = None \<Longrightarrow>
      ((\<exists>e. set_element chk val indices strict v = Inl e) \<longleftrightarrow> strict) \<and>
      ((\<exists>e. add_to_element chk val indices strict v = Inl e) \<longleftrightarrow> strict) \<and>
      (\<not> strict \<longrightarrow> set_element chk val indices strict v = Inr (0, v) \<and>
                    add_to_element chk val indices strict v = Inr (0, v))"
    by (simp add: set_element_def add_to_element_def)
  have s: "elems v = Some st \<Longrightarrow> chk indices strict False = Inr True \<Longrightarrow>
      set_element chk val indices strict v =
        Inr (1, v\<lparr>elems := Some (st (elem_key v indices (get_alloc_step_index v indices) := val)),
                  dirty_steps := (dirty_steps v)[get_alloc_step_index v indices := True]\<rparr>)"
    by (simp add: set_element_def Let_def write_elem_def set_dirty_using_alloc_index_def
          get_alloc_step_index_def elem_key_def wrap_step_def)
  have a: "elems v = Some st \<Longrightarrow> chk indices strict True = Inr True \<Longrightarrow>
      add_to_element chk val indices strict v =
        Inr (1, v\<lparr>elems := Some (st (elem_key v indices (get_alloc_step_index v indices) :=
                      st (elem_key v indices (get_alloc_step_index v indices)) + val)),
                  dirty_steps := (dirty_steps v)[get_alloc_step_index v indices := True]\<rparr>)"
    by (simp add: add_to_element_def Let_def add_to_elem_def set_dirty_using_alloc_index_def
          get_alloc_step_index_def elem_key_def wrap_step_def)
  show ?thesis using n s a by blast
qed

text \<open>
  The theorem at the example var: without storage a strict call throws and a lax call
  returns 0; with storage, setting \<open>u(3, 1)\<close> writes the element of slot 1 and marks
  slot 1 dirty.
\<close>

theorem set_element_add_to_element_witness:
  "elems u_unallocated = None \<and>
   ((\<exists>e. set_element check_any 5 [3, 1] True u_unallocated = Inl e) \<longleftrightarrow> True) \<and>
   set_element check_any 5 [3, 1] False u_unallocated = Inr (0, u_unallocated) \<and>
   add_to_element check_any 5 [3, 1] False u_unallocated = Inr (0, u_unallocated) \<and>
   elems u_var = Some (\<lambda>pt. 0) \<and>
   check_any [3, 1] False False = Inr True \<and>
   check_any [3, 1] False True = Inr True \<and>
   set_element check_any 5 [3, 1] False u_var =
     Inr (1, u_var\<lparr>elems := Some ((\<lambda>pt. 0) (elem_key u_var [3, 1]
                       (get_alloc_step_index u_var [3, 1]) := 5)),
               dirty_steps := (dirty_steps u_var)[get_alloc_step_index u_var [3, 1] := True]\<rparr>) \<and>
   add_to_element check_any 5 [3, 1] False u_var =
     Inr (1, u_var\<lparr>elems := Some ((\<lambda>pt. 0) (elem_key u_var [3, 1]
                       (get_alloc_step_index u_var [3, 1]) :=
                         (\<lambda>pt. 0) (elem_key u_var [3, 1] (get_alloc_step_index u_var [3, 1])) + 5)),
               dirty_steps := (dirty_steps u_var)[get_alloc_step_index u_var [3, 1] := True]\<rparr>) \<and>
   get_alloc_step_index u_var [3, 1] = 1 \<and>
   elem_key u_var [3, 1] 1 = [1, 1] \<and>
   (dirty_steps u_var)[get_alloc_step_index u_var [3, 1] := True] = [False, True]"
proof -
  have h1: "elems u_unallocated = None"
    by (simp add: u_unallocated_def)
  have h2: "elems u_var = Some (\<lambda>pt. 0)"
    by (simp add: u_var_def)
  have h3: "check_any [3, 1] False False = Inr True" "check_any [3, 1] False True = Inr True"
    by (simp_all add: check_any_def)
  have e: "get_alloc_step_index u_var [3, 1] = 1" "elem_key u_var [3, 1] 1 = [1, 1]"
      "(dirty_steps u_var)[get_alloc_step_index u_var [3, 1] := True] = [False, True]"
    by (simp_all add: get_alloc_step_index_def wrap_step_def elem_key_def u_var_def)
  note t1 = set_element_add_to_element [where v = u_unallocated and chk = check_any
      and val = 5 and indices = "[3, 1]" and strict = True]
  note t2 = set_element_add_to_element [where v = u_unallocated and chk = check_any
      and val = 5 and indices = "[3, 1]" and strict = False]
  note t3 = set_element_add_to_element [where v = u_var and st = "\<lambda>pt. 0" and chk = check_any
      and val = 5 and indices = "[3, 1]" and strict = False]
  show ?thesis
    using t1 t2 t3 h1 h2 h3 e by blast
qed

section \<open>Properties of the slice APIs\<close>
















section \<open>Properties of the halo exchange\<close>

subsection \<open>Which vars and steps are selected\<close>

lemma set_vector_set_insert: "set (vector_set_insert t xs) = insert t (set xs)"
  by (auto simp: vector_set_insert_def)

text \<open>
  The step indices that the loop checks run from the smaller of 0 and the first
  allocated step index up to the larger of 0 and the last allocated step index; for a
  var without the step dim the loop checks step index 0 alone.
\<close>

lemma swap_step_range_mem:
  "t \<in> set (swap_step_range gp) \<longleftrightarrow>
     (if step_used gp
      then min 0 (first_alloc gp ! var_step_posn gp) \<le> t \<and>
           t < max 1 (last_alloc gp ! var_step_posn gp + 1)
      else t = 0)"
  by (auto simp: swap_step_range_def Let_def)

lemma check_swap_steps:
  "t' \<in> set (cmap_at (fst (fold (\<lambda>t st.
                 if \<not> is_dirty gp t then st
                 else (let steps = cmap_put gname (vector_set_insert t (cmap_at (fst st) gname)) (fst st)
                       in (steps, max (snd st) (length (cmap_at steps gname)))))
                ts st)) g') \<longleftrightarrow>
   t' \<in> set (cmap_at (fst st) g') \<or> (g' = gname \<and> t' \<in> set ts \<and> is_dirty gp t')"
proof (induction ts arbitrary: st)
  case Nil
  then show ?case by simp
next
  case (Cons t ts)
  show ?case
    by (simp add: Cons.IH Let_def cmap_at_cmap_put set_vector_set_insert) blast
qed

lemma check_swap_mem:
  "t \<in> set (cmap_at (fst (check_swap cx gname st)) g) \<longleftrightarrow>
   t \<in> set (cmap_at (fst st) g) \<or>
   (g = gname \<and> (\<exists>gp. map_of (gridPtrs cx) gname = Some gp \<and> \<not> is_scratch gp \<and>
        map_of (mpiData cx) gname \<noteq> None \<and> t \<in> set (swap_step_range gp) \<and> is_dirty gp t))"
proof (cases "map_of (gridPtrs cx) gname")
  case None
  then show ?thesis by (simp add: check_swap_def)
next
  case (Some gp)
  show ?thesis
  proof (cases "is_scratch gp \<or> map_of (mpiData cx) gname = None")
    case True
    then show ?thesis using Some by (auto simp: check_swap_def)
  next
    case False
    then show ?thesis
      using Some check_swap_steps [of t gp gname "swap_step_range gp" st g]
      by (auto simp: check_swap_def)
  qed
qed

lemma check_swap_fold_mem:
  "t \<in> set (cmap_at (fst (fold (check_swap cx) gs st)) g) \<longleftrightarrow>
   t \<in> set (cmap_at (fst st) g) \<or>
   (g \<in> set gs \<and> (\<exists>gp. map_of (gridPtrs cx) g = Some gp \<and> \<not> is_scratch gp \<and>
        map_of (mpiData cx) g \<noteq> None \<and> t \<in> set (swap_step_range gp) \<and> is_dirty gp t))"
proof (induction gs arbitrary: st)
  case Nil
  then show ?case by simp
next
  case (Cons gname gs)
  show ?case
    by (simp add: Cons.IH check_swap_mem) blast
qed

lemma selected_iff:
  "selected cx g t \<longleftrightarrow>
     (\<exists>gp. swap_candidate cx g gp \<and> t \<in> set (swap_step_range gp) \<and> is_dirty gp t)"
proof -
  have e: "cmap_at ([] :: (string \<times> int list) list) g = []"
    by (simp add: cmap_at_def)
  show ?thesis
    unfolding selected_def steps_to_swap_def swap_candidate_def
    using check_swap_fold_mem [of t cx "input_grids cx" "([], 0)" g] e
    by auto
qed

subsection \<open>The keys of \<open>stepsToSwap\<close>\<close>

lemma cmap_put_key_cases:
  "(a, b) \<in> set (cmap_put k v m) \<Longrightarrow> a = k \<or> (\<exists>b'. (a, b') \<in> set m)"
  by (induction m) (auto split: if_splits)

lemma cmap_put_sorted:
  "sorted_wrt (<) (map fst m) \<Longrightarrow> sorted_wrt (<) (map fst (cmap_put k v m))"
proof (induction m)
  case Nil
  then show ?case by simp
next
  case (Cons p m)
  obtain k' v' where p: "p = (k', v')" by (cases p)
  have "k' < a" if "(a, b) \<in> set (cmap_put k v m)" "\<not> k < k'" "k \<noteq> k'" for a b
    using cmap_put_key_cases [OF that(1)] that(2,3) Cons.prems p by auto
  then show ?case
    using Cons p by auto
qed

lemma check_swap_steps_sorted:
  "sorted_wrt (<) (map fst (fst st)) \<Longrightarrow>
   sorted_wrt (<) (map fst (fst (fold (\<lambda>t st.
                 if \<not> is_dirty gp t then st
                 else (let steps = cmap_put gname (vector_set_insert t (cmap_at (fst st) gname)) (fst st)
                       in (steps, max (snd st) (length (cmap_at steps gname)))))
                ts st)))"
  by (induction ts arbitrary: st) (simp_all add: Let_def cmap_put_sorted)

lemma check_swap_sorted:
  "sorted_wrt (<) (map fst (fst st)) \<Longrightarrow> sorted_wrt (<) (map fst (fst (check_swap cx gname st)))"
  by (simp add: check_swap_def check_swap_steps_sorted split: option.splits)

lemma steps_to_swap_distinct: "distinct (map fst (fst (steps_to_swap cx)))"
proof -
  have "sorted_wrt (<) (map fst (fst st)) \<Longrightarrow>
        sorted_wrt (<) (map fst (fst (fold (check_swap cx) gs st)))" for gs st
    by (induction gs arbitrary: st) (simp_all add: check_swap_sorted)
  then have "sorted_wrt (<) (map fst (fst (steps_to_swap cx)))"
    by (simp add: steps_to_swap_def)
  then show ?thesis
    by (simp add: strict_sorted_iff)
qed

text \<open>\<open>max_steps\<close> is at least the number of steps of every var to swap.\<close>

lemma check_swap_steps_max:
  "(\<And>g. length (cmap_at (fst st) g) \<le> snd st) \<Longrightarrow>
   length (cmap_at (fst (fold (\<lambda>t st.
                 if \<not> is_dirty gp t then st
                 else (let steps = cmap_put gname (vector_set_insert t (cmap_at (fst st) gname)) (fst st)
                       in (steps, max (snd st) (length (cmap_at steps gname)))))
                ts st)) g')
     \<le> snd (fold (\<lambda>t st.
                 if \<not> is_dirty gp t then st
                 else (let steps = cmap_put gname (vector_set_insert t (cmap_at (fst st) gname)) (fst st)
                       in (steps, max (snd st) (length (cmap_at steps gname)))))
                ts st)"
proof (induction ts arbitrary: st)
  case Nil
  then show ?case by simp
next
  case (Cons t ts)
  show ?case
  proof (cases "is_dirty gp t")
    case False
    then show ?thesis using Cons by simp
  next
    case True
    define st' where "st' = (cmap_put gname (vector_set_insert t (cmap_at (fst st) gname)) (fst st),
              max (snd st) (length (vector_set_insert t (cmap_at (fst st) gname))))"
    have "length (cmap_at (fst st') g) \<le> snd st'" for g
      using Cons.prems [of g] by (simp add: st'_def cmap_at_cmap_put le_max_iff_disj)
    then show ?thesis
      using True Cons.IH [of st'] by (simp add: Let_def cmap_at_cmap_put st'_def)
  qed
qed

lemma check_swap_max:
  "(\<And>g. length (cmap_at (fst st) g) \<le> snd st) \<Longrightarrow>
   length (cmap_at (fst (check_swap cx gname st)) g') \<le> snd (check_swap cx gname st)"
  by (simp add: check_swap_def check_swap_steps_max split: option.splits)

lemma check_swap_fold_max:
  "(\<And>g. length (cmap_at (fst st) g) \<le> snd st) \<Longrightarrow>
   length (cmap_at (fst (fold (check_swap cx) gs st)) g') \<le> snd (fold (check_swap cx) gs st)"
proof (induction gs arbitrary: st)
  case Nil
  then show ?case by simp
next
  case (Cons gname gs)
  have "length (cmap_at (fst (check_swap cx gname st)) g) \<le> snd (check_swap cx gname st)" for g
    using Cons.prems by (rule check_swap_max)
  then show ?case
    using Cons.IH [of "check_swap cx gname st"] by simp
qed

lemma steps_to_swap_max:
  "length (cmap_at (fst (steps_to_swap cx)) g) \<le> snd (steps_to_swap cx)"
  unfolding steps_to_swap_def
  by (rule check_swap_fold_max) (simp add: cmap_at_def)

subsection \<open>One var through the phases\<close>

lemma same_slots_refl: "same_slots v v"
  by (simp add: same_slots_def)

lemma same_slots_trans: "same_slots v w \<Longrightarrow> same_slots w x \<Longrightarrow> same_slots v x"
  by (simp add: same_slots_def)

lemma same_slots_wrap_step: "same_slots v w \<Longrightarrow> wrap_step w t = wrap_step v t"
  by (simp add: same_slots_def wrap_step_def)

lemma same_slots_bufs_ok: "same_slots v w \<Longrightarrow> bufs_ok w bs = bufs_ok v bs"
  by (simp add: same_slots_def bufs_ok_def)

lemma neighbor_step_unpack:
  assumes "\<not> step_used v \<or>
           (var_step_posn v < length (recv_begin_pt b) \<and> var_step_posn v < length (recv_last_pt b))"
  shows "neighbor_step recv halo_unpack g si b v =
           (if recv_bytes b \<noteq> 0
            then v\<lparr>elems := map_option (recv g (neighbor_rank b) si) (elems v),
                   dirty_steps := (dirty_steps v)[wrap_step v si := True]\<rparr>
            else v)"
proof (cases "step_used v")
  case True
  then show ?thesis
    using assms
    by (simp add: neighbor_step_def set_dirty_in_slice_def set_dirty_def
        set_dirty_using_alloc_index_def wrap_step_def)
next
  case False
  then show ?thesis
    by (simp add: neighbor_step_def set_dirty_in_slice_def set_dirty_def
        set_dirty_using_alloc_index_def wrap_step_def)
qed

lemma neighbor_step_final:
  "neighbor_step recv halo_final g si b v = v\<lparr>dirty_steps := (dirty_steps v)[wrap_step v si := False]\<rparr>"
proof (cases "is_dirty v si")
  case True
  then show ?thesis
    by (simp add: neighbor_step_def set_dirty_def set_dirty_using_alloc_index_def)
next
  case False
  then have "(dirty_steps v)[wrap_step v si := False] = dirty_steps v"
    by (metis is_dirty_def list_update_id)
  then show ?thesis
    using False by (simp add: neighbor_step_def)
qed

lemma neighbor_step_slots:
  assumes "\<not> step_used v \<or>
           (var_step_posn v < length (recv_begin_pt b) \<and> var_step_posn v < length (recv_last_pt b))"
  shows "same_slots v (neighbor_step recv hs g si b v)"
proof (cases hs)
  case halo_unpack
  then show ?thesis
    using neighbor_step_unpack [OF assms, of recv g si] by (simp add: same_slots_def)
next
  case halo_final
  then show ?thesis
    by (simp add: neighbor_step_final same_slots_def)
qed (simp_all add: neighbor_step_def same_slots_def)

lemma neighbor_fold_slots:
  "bufs_ok v bs \<Longrightarrow> same_slots v (fold (neighbor_step recv hs g si) bs v)"
proof (induction bs arbitrary: v)
  case Nil
  then show ?case by (simp add: same_slots_refl)
next
  case (Cons b bs)
  define w where "w = neighbor_step recv hs g si b v"
  have vw: "same_slots v w"
    unfolding w_def using Cons.prems by (intro neighbor_step_slots) (simp add: bufs_ok_def)
  have "bufs_ok w bs"
    using Cons.prems same_slots_bufs_ok [OF vw, of bs] by (simp add: bufs_ok_def)
  then have "same_slots w (fold (neighbor_step recv hs g si) bs w)"
    by (rule Cons.IH)
  then show ?case
    using vw by (simp add: w_def [symmetric] same_slots_trans)
qed

lemma neighbor_fold_final:
  "dirty_steps (fold (neighbor_step recv halo_final g si) bs v) =
     (if bs = [] then dirty_steps v else (dirty_steps v)[wrap_step v si := False])"
proof (induction bs arbitrary: v)
  case Nil
  then show ?case by simp
next
  case (Cons b bs)
  define w where "w = v\<lparr>dirty_steps := (dirty_steps v)[wrap_step v si := False]\<rparr>"
  have ws: "wrap_step w si = wrap_step v si"
    by (simp add: w_def wrap_step_def)
  have step: "neighbor_step recv halo_final g si b v = w"
    by (simp add: neighbor_step_final w_def)
  have unroll: "fold (neighbor_step recv halo_final g si) (b # bs) v =
                fold (neighbor_step recv halo_final g si) bs w"
    by (simp only: fold_simps step)
  have dw: "dirty_steps w = (dirty_steps v)[wrap_step v si := False]"
    by (simp add: w_def)
  have "dirty_steps (fold (neighbor_step recv halo_final g si) bs w) =
     (if bs = [] then dirty_steps w else (dirty_steps w)[wrap_step w si := False])"
    by (rule Cons.IH)
  then show ?case
    unfolding unroll ws dw by simp
qed

lemma neighbor_fold_unpack:
  assumes "bufs_ok v bs"
  shows "dirty_steps (fold (neighbor_step recv halo_unpack g si) bs v) = dirty_steps v \<or>
         dirty_steps (fold (neighbor_step recv halo_unpack g si) bs v) =
           (dirty_steps v)[wrap_step v si := True]"
  using assms
proof (induction bs arbitrary: v)
  case Nil
  then show ?case by simp
next
  case (Cons b bs)
  define w where "w = neighbor_step recv halo_unpack g si b v"
  have ok: "\<not> step_used v \<or>
           (var_step_posn v < length (recv_begin_pt b) \<and> var_step_posn v < length (recv_last_pt b))"
    using Cons.prems by (simp add: bufs_ok_def)
  have vw: "same_slots v w"
    unfolding w_def using ok by (rule neighbor_step_slots)
  have dw: "dirty_steps w = dirty_steps v \<or> dirty_steps w = (dirty_steps v)[wrap_step v si := True]"
    unfolding w_def using neighbor_step_unpack [OF ok, of recv g si] by simp
  have "bufs_ok w bs"
    using Cons.prems same_slots_bufs_ok [OF vw, of bs] by (simp add: bufs_ok_def)
  then have "dirty_steps (fold (neighbor_step recv halo_unpack g si) bs w) = dirty_steps w \<or>
         dirty_steps (fold (neighbor_step recv halo_unpack g si) bs w) =
           (dirty_steps w)[wrap_step w si := True]"
    by (rule Cons.IH)
  then have "dirty_steps (fold (neighbor_step recv halo_unpack g si) bs w) = dirty_steps v \<or>
         dirty_steps (fold (neighbor_step recv halo_unpack g si) bs w) =
           (dirty_steps v)[wrap_step v si := True]"
    using dw same_slots_wrap_step [OF vw, of si] by auto
  then show ?case
    by (simp add: w_def)
qed

lemma neighbor_fold_other:
  "hs = halo_irecv \<or> hs = halo_pack_isend \<Longrightarrow> fold (neighbor_step recv hs g si) bs v = v"
  by (induction bs) (auto simp: neighbor_step_def)

text \<open>
  With the final phase and at least one neighbor, the phases of one step-vector index
  leave the slot of its step clean and change no other flag.
\<close>

lemma var_index_clears:
  assumes int: "do_mpi_interior cx" and k: "k < length steps"
    and bs: "cmap_at (mpiData cx) g \<noteq> []" and ok: "bufs_ok v (cmap_at (mpiData cx) g)"
  shows "same_slots v (var_index recv cx g steps k v) \<and>
         dirty_steps (var_index recv cx g steps k v) =
           (dirty_steps v)[wrap_step v (steps ! k) := False]"
proof -
  define nb where "nb = cmap_at (mpiData cx) g"
  define si where "si = steps ! k"
  define u where "u = fold (neighbor_step recv halo_unpack g si) nb v"
  define f where "f = fold (neighbor_step recv halo_final g si) nb u"
  have pre: "fold (var_phase recv (mpiData cx) g steps k) [halo_irecv, halo_pack_isend] v = v"
    using k by (simp add: var_phase_def neighbor_fold_other)
  have "var_index recv cx g steps k v =
          fold (var_phase recv (mpiData cx) g steps k) [halo_unpack, halo_final] v"
    using int pre by (simp add: var_index_def steps_to_do_def del: fold_simps)
  then have vi: "var_index recv cx g steps k v = f"
    using k by (simp add: var_phase_def f_def u_def nb_def si_def)
  have vu: "same_slots v u"
    unfolding u_def using ok by (intro neighbor_fold_slots) (simp add: nb_def)
  have "bufs_ok u nb"
    using ok same_slots_bufs_ok [OF vu, of nb] by (simp add: nb_def)
  then have uf: "same_slots u f"
    unfolding f_def by (rule neighbor_fold_slots)
  have du: "dirty_steps u = dirty_steps v \<or> dirty_steps u = (dirty_steps v)[wrap_step v si := True]"
    unfolding u_def using ok by (intro neighbor_fold_unpack) (simp add: nb_def)
  have "dirty_steps f = (dirty_steps u)[wrap_step u si := False]"
    unfolding f_def using bs by (simp add: neighbor_fold_final nb_def)
  then have "dirty_steps f = (dirty_steps v)[wrap_step v si := False]"
    using du same_slots_wrap_step [OF vu, of si] by auto
  then show ?thesis
    using vi same_slots_trans [OF vu uf] by (simp add: si_def)
qed

lemma var_index_skip: "length steps \<le> k \<Longrightarrow> var_index recv cx g steps k v = v"
proof -
  assume k: "length steps \<le> k"
  have "fold (var_phase recv mpi g steps k) ps v = v" for ps mpi
    using k by (induction ps) (simp_all add: var_phase_def)
  then show ?thesis
    by (simp add: var_index_def)
qed

lemma var_all_clears:
  assumes int: "do_mpi_interior cx"
    and bs: "cmap_at (mpiData cx) g \<noteq> []" and ok: "bufs_ok v (cmap_at (mpiData cx) g)"
  shows "same_slots v (fold (var_index recv cx g steps) [0..<n] v) \<and>
         (\<forall>j. j < n \<and> j < length steps \<and> wrap_step v (steps ! j) < length (dirty_steps v) \<longrightarrow>
              \<not> dirty_steps (fold (var_index recv cx g steps) [0..<n] v) ! wrap_step v (steps ! j))"
proof (induction n)
  case 0
  then show ?case by (simp add: same_slots_refl)
next
  case (Suc n)
  define w where "w = fold (var_index recv cx g steps) [0..<n] v"
  define x where "x = var_index recv cx g steps n w"
  have vw: "same_slots v w"
    using Suc by (simp add: w_def)
  have clean: "\<not> dirty_steps w ! wrap_step v (steps ! j)"
    if "j < n" "j < length steps" "wrap_step v (steps ! j) < length (dirty_steps v)" for j
    using Suc that by (simp add: w_def)
  have fx: "fold (var_index recv cx g steps) [0..<Suc n] v = x"
    by (simp add: x_def w_def)
  show ?case
  proof (cases "n < length steps")
    case False
    then have "x = w"
      by (simp add: x_def var_index_skip)
    then show ?thesis
      using vw clean False unfolding fx by auto
  next
    case True
    have okw: "bufs_ok w (cmap_at (mpiData cx) g)"
      using ok same_slots_bufs_ok [OF vw] by simp
    have wx: "same_slots w x"
      and dx: "dirty_steps x = (dirty_steps w)[wrap_step w (steps ! n) := False]"
      using var_index_clears [OF int True bs okw, of recv] by (simp_all add: x_def)
    have dx': "dirty_steps x = (dirty_steps w)[wrap_step v (steps ! n) := False]"
      using dx same_slots_wrap_step [OF vw] by simp
    have len: "length (dirty_steps w) = length (dirty_steps v)"
      using vw by (simp add: same_slots_def)
    have "\<not> dirty_steps x ! wrap_step v (steps ! j)"
      if j: "j < Suc n" "j < length steps" "wrap_step v (steps ! j) < length (dirty_steps v)" for j
    proof (cases "wrap_step v (steps ! j) = wrap_step v (steps ! n)")
      case True
      then show ?thesis
        using j(3) len by (simp add: dx')
    next
      case False
      then have "j \<noteq> n" by auto
      then have "j < n" using j(1) by simp
      then show ?thesis
        using False clean [OF _ j(2,3)] by (simp add: dx')
    qed
    then show ?thesis
      using same_slots_trans [OF vw wx] unfolding fx by blast
  qed
qed

subsection \<open>The store of vars through the loops\<close>

lemma map_of_put_var:
  "map_of (put_var g v vars) g' =
     (if g' = g then map_option (\<lambda>_. v) (map_of vars g') else map_of vars g')"
  by (induction vars) (auto simp: put_var_def)

lemma swap_grid_map_of:
  "map_of (swap_grid recv mpi k hs (g, steps) vars) g' =
     (if g' = g then map_option (var_phase recv mpi g steps k hs) (map_of vars g')
      else map_of vars g')"
proof (cases "length steps \<le> k")
  case True
  have "var_phase recv mpi g steps k hs = (\<lambda>gp. gp)"
    using True by (intro ext) (simp add: var_phase_def)
  then show ?thesis
    using True by (simp add: swap_grid_def option.map_ident)
next
  case False
  then show ?thesis
    by (cases "map_of vars g") (auto simp: swap_grid_def var_phase_def map_of_put_var)
qed

lemma swap_fold_map_of:
  "distinct (map fst sw) \<Longrightarrow>
   map_of (fold (swap_grid recv mpi k hs) sw vars) g =
     (case map_of sw g of
        None \<Rightarrow> map_of vars g
      | Some steps \<Rightarrow> map_option (var_phase recv mpi g steps k hs) (map_of vars g))"
proof (induction sw arbitrary: vars)
  case Nil
  then show ?case by simp
next
  case (Cons p sw)
  obtain g1 s1 where p: "p = (g1, s1)" by (cases p)
  have d: "distinct (map fst sw)" and n: "map_of sw g1 = None"
    using Cons.prems p by (simp_all add: map_of_eq_None_iff)
  show ?case
    using Cons.IH [OF d, of "swap_grid recv mpi k hs (g1, s1) vars"] n
    by (cases "map_of sw g") (auto simp: p swap_grid_map_of)
qed

lemma phases_map_of:
  "distinct (map fst sw) \<Longrightarrow>
   map_of (fold (\<lambda>hs vars. fold (swap_grid recv mpi k hs) sw vars) ps vars) g =
     (case map_of sw g of
        None \<Rightarrow> map_of vars g
      | Some steps \<Rightarrow> map_option (fold (var_phase recv mpi g steps k) ps) (map_of vars g))"
proof (induction ps arbitrary: vars)
  case Nil
  then show ?case
    by (cases "map_of vars g") (simp_all split: option.splits)
next
  case (Cons hs ps)
  show ?case
    using Cons.IH [OF Cons.prems, of "fold (swap_grid recv mpi k hs) sw vars"]
    by (cases "map_of vars g")
       (simp_all add: swap_fold_map_of [OF Cons.prems] split: option.splits)
qed

lemma swap_index_map_of:
  "distinct (map fst sw) \<Longrightarrow>
   map_of (swap_index recv cx sw k vars) g =
     (case map_of sw g of
        None \<Rightarrow> map_of vars g
      | Some steps \<Rightarrow> map_option (var_index recv cx g steps k) (map_of vars g))"
proof -
  assume d: "distinct (map fst sw)"
  have "var_index recv cx g steps k = fold (var_phase recv (mpiData cx) g steps k) (steps_to_do cx)"
    for steps
    by (rule ext) (simp add: var_index_def)
  then show ?thesis
    using phases_map_of [OF d, of recv "mpiData cx" k "steps_to_do cx" vars g]
    by (cases "map_of sw g") (simp_all add: swap_index_def)
qed

lemma indices_map_of:
  "distinct (map fst sw) \<Longrightarrow>
   map_of (fold (swap_index recv cx sw) ks vars) g =
     (case map_of sw g of
        None \<Rightarrow> map_of vars g
      | Some steps \<Rightarrow> map_option (fold (var_index recv cx g steps) ks) (map_of vars g))"
proof (induction ks arbitrary: vars)
  case Nil
  then show ?case
    by (cases "map_of vars g") (simp_all split: option.splits)
next
  case (Cons k ks)
  show ?case
    using Cons.IH [OF Cons.prems, of "swap_index recv cx sw k vars"]
    by (cases "map_of vars g")
       (simp_all add: swap_index_map_of [OF Cons.prems] split: option.splits)
qed

subsection \<open>The dirty flags across \<open>exchange_halos\<close>\<close>

lemma exchange_halos_vars:
  assumes "enable_halo_exchange cx" and "2 \<le> halo_num_ranks cx"
  shows "map_of (gridPtrs (exchange_halos recv False cx)) g =
     (case map_of (fst (steps_to_swap cx)) g of
        None \<Rightarrow> map_of (gridPtrs cx) g
      | Some steps \<Rightarrow>
          map_option (fold (var_index recv cx g steps) [0..<snd (steps_to_swap cx)])
            (map_of (gridPtrs cx) g))"
proof -
  have "gridPtrs (exchange_halos recv False cx) =
          fold (swap_index recv cx (fst (steps_to_swap cx))) [0..<snd (steps_to_swap cx)] (gridPtrs cx)"
    using assms by (simp add: exchange_halos_def Let_def)
  then show ?thesis
    by (simp only: indices_map_of [OF steps_to_swap_distinct])
qed

lemma dirty_flags_ok_slot: "dirty_flags_ok v \<Longrightarrow> wrap_step v t < length (dirty_steps v)"
proof (cases "step_used v")
  case True
  assume "dirty_flags_ok v"
  then have n: "0 < alloc_steps v" "length (dirty_steps v) = alloc_steps v"
    using True by (simp_all add: dirty_flags_ok_def)
  have "0 \<le> t mod int (alloc_steps v)" "t mod int (alloc_steps v) < int (alloc_steps v)"
    using n(1) by simp_all
  then have "nat (t mod int (alloc_steps v)) < alloc_steps v"
    by linarith
  then show ?thesis
    using True n by (simp add: wrap_step_def)
next
  case False
  assume "dirty_flags_ok v"
  then show ?thesis
    using False by (simp add: dirty_flags_ok_def wrap_step_def)
qed

lemma exchange_halos_unselected:
  assumes en: "enable_halo_exchange cx" and nr: "2 \<le> halo_num_ranks cx"
    and no: "\<And>t. \<not> selected cx g t"
  shows "map_of (gridPtrs (exchange_halos recv False cx)) g = map_of (gridPtrs cx) g"
proof (cases "map_of (fst (steps_to_swap cx)) g")
  case None
  then show ?thesis
    by (simp add: exchange_halos_vars [OF en nr])
next
  case (Some steps)
  have "t \<notin> set steps" for t
    using no [of t] Some by (simp add: selected_def cmap_at_def)
  then have e: "steps = []"
    by (cases steps) auto
  have "fold (var_index recv cx g []) ks v = v" for ks v
    by (induction ks) (simp_all add: var_index_skip)
  then have "fold (var_index recv cx g steps) [0..<snd (steps_to_swap cx)] = (\<lambda>v. v)"
    unfolding e by (intro ext)
  then show ?thesis
    using Some by (simp add: exchange_halos_vars [OF en nr] option.map_ident)
qed

lemma exchange_halos_clears:
  assumes en: "enable_halo_exchange cx" and nr: "2 \<le> halo_num_ranks cx"
    and sel: "selected cx g t" and int: "do_mpi_interior cx"
    and bs: "cmap_at (mpiData cx) g \<noteq> []"
    and gp: "map_of (gridPtrs cx) g = Some gp"
    and flags: "dirty_flags_ok gp" and ok: "bufs_ok gp (cmap_at (mpiData cx) g)"
  shows "\<exists>gp'. map_of (gridPtrs (exchange_halos recv False cx)) g = Some gp' \<and> \<not> is_dirty gp' t"
proof -
  define steps where "steps = cmap_at (fst (steps_to_swap cx)) g"
  define n where "n = snd (steps_to_swap cx)"
  define gp' where "gp' = fold (var_index recv cx g steps) [0..<n] gp"
  have t: "t \<in> set steps"
    using sel by (simp add: selected_def steps_def)
  then have some: "map_of (fst (steps_to_swap cx)) g = Some steps"
    by (cases "map_of (fst (steps_to_swap cx)) g") (simp_all add: steps_def cmap_at_def)
  obtain j where j: "j < length steps" "steps ! j = t"
    using t by (auto simp: in_set_conv_nth)
  have "length steps \<le> n"
    unfolding steps_def n_def by (rule steps_to_swap_max)
  then have jn: "j < n" using j(1) by simp
  have res: "map_of (gridPtrs (exchange_halos recv False cx)) g = Some gp'"
    using some gp by (simp add: exchange_halos_vars [OF en nr] gp'_def n_def)
  have slots: "same_slots gp gp'"
    and clean: "\<And>j. j < n \<and> j < length steps \<and> wrap_step gp (steps ! j) < length (dirty_steps gp)
                 \<Longrightarrow> \<not> dirty_steps gp' ! wrap_step gp (steps ! j)"
    using var_all_clears [OF int bs ok, of recv steps n] by (simp_all add: gp'_def)
  have "\<not> dirty_steps gp' ! wrap_step gp t"
    using clean [of j] j jn dirty_flags_ok_slot [OF flags, of t] by simp
  then have "\<not> is_dirty gp' t"
    using same_slots_wrap_step [OF slots, of t] by (simp add: is_dirty_def)
  then show ?thesis
    using res by blast
qed

text \<open>
  Claim C1, amended.  When more than one rank is active and halo exchange is enabled, a
  non-test call to \<open>exchange_halos\<close> selects a var at a step index \<open>t\<close> if and only if
  the var is an input of a needed bundle of some pack, is not a scratch var, has MPI
  buffers, \<open>t\<close> is one of the step indices that the loop checks (\<open>swap_step_range\<close>: from
  \<open>min(0, first allocated step index)\<close> to \<open>max(1, last allocated step index + 1) - 1\<close>,
  and 0 alone for a var without the step dim) and the dirty flag of the var is set for
  \<open>t\<close>.  A var that is selected at no step index is the same after the call.  When the
  call runs the final phase (\<open>do_mpi_interior\<close>) and the var has at least one neighbor,
  a flag per step slot and buffer points with an entry for its step dim, then after the
  call the dirty flag of the var is clear at every selected step index.
\<close>

theorem exchange_halos_dirty_flags:
  assumes "enable_halo_exchange cx" and "2 \<le> halo_num_ranks cx"
  shows "(selected cx g t \<longleftrightarrow>
            (\<exists>gp. swap_candidate cx g gp \<and> t \<in> set (swap_step_range gp) \<and> is_dirty gp t)) \<and>
         ((\<forall>t'. \<not> selected cx g t') \<longrightarrow>
            map_of (gridPtrs (exchange_halos recv False cx)) g = map_of (gridPtrs cx) g) \<and>
         (selected cx g t \<and> do_mpi_interior cx \<and> cmap_at (mpiData cx) g \<noteq> [] \<and>
          (\<exists>gp. map_of (gridPtrs cx) g = Some gp \<and> dirty_flags_ok gp \<and>
                bufs_ok gp (cmap_at (mpiData cx) g)) \<longrightarrow>
            (\<exists>gp'. map_of (gridPtrs (exchange_halos recv False cx)) g = Some gp' \<and>
                   \<not> is_dirty gp' t))"
proof (intro conjI impI)
  show "selected cx g t \<longleftrightarrow>
          (\<exists>gp. swap_candidate cx g gp \<and> t \<in> set (swap_step_range gp) \<and> is_dirty gp t)"
    by (rule selected_iff)
next
  assume "\<forall>t'. \<not> selected cx g t'"
  then show "map_of (gridPtrs (exchange_halos recv False cx)) g = map_of (gridPtrs cx) g"
    using assms by (intro exchange_halos_unselected) simp_all
next
  assume a: "selected cx g t \<and> do_mpi_interior cx \<and> cmap_at (mpiData cx) g \<noteq> [] \<and>
          (\<exists>gp. map_of (gridPtrs cx) g = Some gp \<and> dirty_flags_ok gp \<and>
                bufs_ok gp (cmap_at (mpiData cx) g))"
  then obtain gp where gp: "map_of (gridPtrs cx) g = Some gp" "dirty_flags_ok gp"
      "bufs_ok gp (cmap_at (mpiData cx) g)"
    by blast
  show "\<exists>gp'. map_of (gridPtrs (exchange_halos recv False cx)) g = Some gp' \<and> \<not> is_dirty gp' t"
    using assms a gp by (intro exchange_halos_clears) simp_all
qed

text \<open>
  The theorem on the example rank: \<open>u\<close> is selected at step index 1 and is clean there
  after the call, and \<open>w\<close>, which is selected at no step index, is unchanged.
\<close>

theorem exchange_halos_dirty_flags_witness:
  "selected halo_context ''u'' 1 \<and>
   (\<exists>gp'. map_of (gridPtrs (exchange_halos recv_same False halo_context)) ''u'' = Some gp' \<and>
          \<not> is_dirty gp' 1) \<and>
   map_of (gridPtrs (exchange_halos recv_same False halo_context)) ''w'' = Some w_var"
proof -
  have en: "enable_halo_exchange halo_context" and nr: "2 \<le> halo_num_ranks halo_context"
    and int: "do_mpi_interior halo_context"
    by (simp_all add: halo_context_def)
  have nb: "cmap_at (mpiData halo_context) ''u'' = [nbr_bufs]"
    by (simp add: halo_context_def cmap_at_def)
  have u: "map_of (gridPtrs halo_context) ''u'' = Some u_halo"
    and w: "map_of (gridPtrs halo_context) ''w'' = Some w_var"
    by (simp_all add: halo_context_def)
  have uok: "dirty_flags_ok u_halo" "bufs_ok u_halo [nbr_bufs]"
    by (simp_all add: dirty_flags_ok_def bufs_ok_def u_halo_def u_var_def nbr_bufs_def)
  have sel: "selected halo_context ''u'' 1"
    by code_simp
  have "''w'' \<notin> set (input_grids halo_context)"
    by code_simp
  then have now: "\<forall>t'. \<not> selected halo_context ''w'' t'"
    using exchange_halos_dirty_flags [OF en nr, of "''w''"] by (simp add: swap_candidate_def)
  have "\<exists>gp'. map_of (gridPtrs (exchange_halos recv_same False halo_context)) ''u'' = Some gp' \<and>
          \<not> is_dirty gp' 1"
    using exchange_halos_dirty_flags [OF en nr, of "''u''" 1 recv_same] sel int nb u uok by simp
  moreover have "map_of (gridPtrs (exchange_halos recv_same False halo_context)) ''w'' = Some w_var"
    using exchange_halos_dirty_flags [OF en nr, of "''w''" 0 recv_same] now w by simp
  ultimately show ?thesis
    using sel by blast
qed

text \<open>
  The claim as stated does not hold: on the example rank, with two ranks and halo
  exchange enabled, the dirty flag of \<open>w\<close> is set at its allocated step index 0, and the
  call does not select \<open>w\<close> at 0, because no needed bundle reads \<open>w\<close>; and the dirty flag
  of the scratch var \<open>tmp\<close> is set at 0, and \<open>tmp\<close> is not selected either.
\<close>

theorem exchange_halos_dirty_unselected:
  "enable_halo_exchange halo_context \<and> 2 \<le> halo_num_ranks halo_context \<and>
   map_of (gridPtrs halo_context) ''w'' = Some w_var \<and>
   0 \<in> set (swap_step_range w_var) \<and> is_dirty w_var 0 \<and>
   \<not> selected halo_context ''w'' 0 \<and>
   map_of (gridPtrs halo_context) ''tmp'' = Some tmp_var \<and>
   0 \<in> set (swap_step_range tmp_var) \<and> is_dirty tmp_var 0 \<and>
   \<not> selected halo_context ''tmp'' 0"
proof -
  have "enable_halo_exchange halo_context \<and> 2 \<le> halo_num_ranks halo_context \<and>
        map_of (gridPtrs halo_context) ''w'' = Some w_var \<and>
        map_of (gridPtrs halo_context) ''tmp'' = Some tmp_var"
    by (simp add: halo_context_def)
  moreover have "0 \<in> set (swap_step_range w_var)" "is_dirty w_var 0"
    "\<not> selected halo_context ''w'' 0"
    "0 \<in> set (swap_step_range tmp_var)" "is_dirty tmp_var 0"
    "\<not> selected halo_context ''tmp'' 0"
    by code_simp+
  ultimately show ?thesis
    by blast
qed

end
